theory Spec2Isabelle
  imports Main
begin

section \<open>The Dockerfile parser of frontend/dockerfile/parser/parser.go\<close>

text \<open>
  Strings are byte lists, as Go's \<open>string\<close> and \<open>[]byte\<close> are. The theory follows
  parser.go function by function: the parse tree, the escape directive, the line
  normaliser, the continuation resolver and the driver loop of \<open>Parse\<close>. Each regular
  expression of the file is a function that decides its match on a text (and computes
  the submatch or the replacement the parser uses). Pointers to nodes and to the
  directive become values that the functions return updated; line numbers are Go's
  \<open>int\<close>, which no input that fits in memory overflows.
\<close>

subsection \<open>Bytes and the library functions the parser calls\<close>

definition backslash :: char where
  "backslash = CHR 0x5C"

definition backtick :: char where
  "backtick = CHR 0x60"

definition newline :: char where
  "newline = CHR 0x0A"

definition dquote :: char where
  "dquote = CHR 0x22"

text \<open>The class \<open>[ \t]\<close> of the regular expressions.\<close>

definition isBlank :: "char \<Rightarrow> bool" where
  "isBlank c \<longleftrightarrow> c = CHR '' '' \<or> c = CHR 0x09"

text \<open>
  \<open>unicode.IsSpace\<close> on a one-byte rune: tab, line feed, vertical tab, form feed,
  carriage return and space.
\<close>

definition isSpaceByte :: "char \<Rightarrow> bool" where
  "isSpaceByte c \<longleftrightarrow>
     c = CHR 0x09 \<or> c = CHR 0x0A \<or> c = CHR 0x0B \<or> c = CHR 0x0C \<or> c = CHR 0x0D \<or> c = CHR 0x20"

text \<open>
  \<open>unicode.IsSpace\<close> on the UTF-8 encodings of two and three bytes: U+0085 and U+00A0;
  U+1680, U+2000 to U+200A, U+2028, U+2029, U+202F, U+205F and U+3000.
\<close>

definition isSpace2 :: "char \<Rightarrow> char \<Rightarrow> bool" where
  "isSpace2 a b \<longleftrightarrow> a = CHR 0xC2 \<and> (b = CHR 0x85 \<or> b = CHR 0xA0)"

definition isSpace3 :: "char \<Rightarrow> char \<Rightarrow> char \<Rightarrow> bool" where
  "isSpace3 a b c \<longleftrightarrow>
     (a = CHR 0xE1 \<and> b = CHR 0x9A \<and> c = CHR 0x80) \<or>
     (a = CHR 0xE2 \<and> b = CHR 0x80 \<and>
        ((128::nat) \<le> of_char c \<and> (of_char c :: nat) \<le> 138 \<or>
         c = CHR 0xA8 \<or> c = CHR 0xA9 \<or> c = CHR 0xAF)) \<or>
     (a = CHR 0xE2 \<and> b = CHR 0x81 \<and> c = CHR 0x9F) \<or>
     (a = CHR 0xE3 \<and> b = CHR 0x80 \<and> c = CHR 0x80)"

text \<open>
  \<open>trimWhitespace\<close> is \<open>bytes.TrimLeftFunc(src, unicode.IsSpace)\<close>: it drops leading
  runes while they are white space. A byte that starts no valid encoding of a
  white-space rune stops the trimming.
\<close>

fun trimWhitespace :: "string \<Rightarrow> string" where
  "trimWhitespace [] = []"
| "trimWhitespace [a] = (if isSpaceByte a then [] else [a])"
| "trimWhitespace [a, b] =
     (if isSpaceByte a then trimWhitespace [b]
      else if isSpace2 a b then []
      else [a, b])"
| "trimWhitespace (a # b # c # rest) =
     (if isSpaceByte a then trimWhitespace (b # c # rest)
      else if isSpace2 a b then trimWhitespace (c # rest)
      else if isSpace3 a b c then trimWhitespace rest
      else a # b # c # rest)"

text \<open>
  \<open>strings.ToLower\<close>, on bytes: the letters A to Z are mapped to a to z. Go lowers
  letters outside ASCII as well; the model leaves their bytes as they are. No such
  letter lowers to a byte that the directive pattern names, and \<open>setEscapeToken\<close>
  rejects every rune outside ASCII, so neither the match nor the error depends on it.
\<close>

definition toLowerByte :: "char \<Rightarrow> char" where
  "toLowerByte c =
     (case map_of (zip ''ABCDEFGHIJKLMNOPQRSTUVWXYZ'' ''abcdefghijklmnopqrstuvwxyz'') c of
        None \<Rightarrow> c
      | Some l \<Rightarrow> l)"

definition ToLower :: "string \<Rightarrow> string" where
  "ToLower s = map toLowerByte s"

text \<open>\<open>bytes.TrimPrefix\<close>.\<close>

definition TrimPrefix :: "string \<Rightarrow> string \<Rightarrow> string" where
  "TrimPrefix s p = (if take (length p) s = p then drop (length p) s else s)"

definition utf8bom :: string where
  "utf8bom = [CHR 0xEF, CHR 0xBB, CHR 0xBF]"

subsection \<open>The parse tree\<close>

text \<open>
  \<open>Node\<close>: the fields of the struct in their order. \<open>Next\<close> is a pointer that may be
  nil, \<open>Children\<close> a slice of nodes, \<open>Attributes\<close> a map.
\<close>

datatype Node = Node
  (Value: string)
  (Next: "Node option")
  (Children: "Node list")
  (Attributes: "string \<rightharpoonup> bool")
  (Original: string)
  (Flags: "string list")
  (StartLine: int)
  (endLine: int)

fun lines :: "Node \<Rightarrow> int \<Rightarrow> int \<Rightarrow> Node" where
  "lines (Node v nx ch at orig fl s e) start end' = Node v nx ch at orig fl start end'"

text \<open>
  \<open>AddChild\<close> sets the child's lines, sets the parent's start line if it is still
  negative, overwrites the parent's end line and appends the child.
\<close>

fun AddChild :: "Node \<Rightarrow> Node \<Rightarrow> int \<Rightarrow> int \<Rightarrow> Node" where
  "AddChild (Node v nx ch at orig fl s e) child startLine endLine' =
     Node v nx (ch @ [lines child startLine endLine']) at orig fl
       (if s < 0 then startLine else s) endLine'"

subsection \<open>Errors\<close>

text \<open>
  The errors \<open>Parse\<close> can return. \<open>InvalidEscape\<close> is the error of \<open>setEscapeToken\<close>
  (its message quotes the rejected text), \<open>DuplicateEscape\<close> is "only one escape parser
  directive can be used", \<open>NoInstructions\<close> is "file with no instructions.",
  \<open>LineTooLong n\<close> is "dockerfile line greater than max allowed size of n".
  \<open>ArgumentError\<close> wraps an error of \<open>splitCommand\<close> or of an argument parser, and
  \<open>ReadError\<close> any other error of the scanner.
\<close>

datatype error =
    InvalidEscape
  | DuplicateEscape
  | NoInstructions
  | LineTooLong nat
  | ArgumentError string
  | ReadError string

subsection \<open>The escape directive\<close>

text \<open>
  \<open>lineEscapeRegex\<close> is compiled from the escape character \<open>s\<close> as \<open>\s[ \t]*$\<close>; the
  field holds that character.
\<close>

record Directive =
  escapeToken :: char
  lineEscapeRegex :: char
  processingComplete :: bool
  escapeSeen :: bool

definition setEscapeToken :: "Directive \<Rightarrow> string \<Rightarrow> Directive \<times> error option" where
  "setEscapeToken d s =
     (if s \<noteq> [backtick] \<and> s \<noteq> [backslash] then (d, Some InvalidEscape)
      else (d\<lparr>escapeToken := hd s, lineEscapeRegex := hd s\<rparr>, None))"

text \<open>
  \<open>tokenEscapeCommand\<close> is \<open>^#[ \t]*escape[ \t]*=[ \t]*(?P<escapechar>.).*$\<close>. The
  function returns the submatch \<open>escapechar\<close> of \<open>FindStringSubmatch\<close>, or \<open>None\<close> when
  the text does not match. \<open>.\<close> matches no line feed and \<open>$\<close> only the end of the text,
  so a text with a line feed after \<open>=\<close> does not match. The blanks after \<open>=\<close> are matched
  greedily: the submatch is the first character after them, or the last blank when
  nothing follows them. Go's submatch is a whole rune; the model keeps its first byte,
  which \<open>setEscapeToken\<close> accepts or rejects as it does the rune.
\<close>

fun stripPrefix :: "string \<Rightarrow> string \<Rightarrow> string option" where
  "stripPrefix [] s = Some s"
| "stripPrefix (p # ps) [] = None"
| "stripPrefix (p # ps) (c # cs) = (if p = c then stripPrefix ps cs else None)"

definition tokenEscapeCommand :: "string \<Rightarrow> string option" where
  "tokenEscapeCommand s =
     (case s of
        [] \<Rightarrow> None
      | h # r0 \<Rightarrow>
          if h \<noteq> CHR ''#'' then None
          else (case stripPrefix ''escape'' (dropWhile isBlank r0) of
                  None \<Rightarrow> None
                | Some r2 \<Rightarrow>
                    (case dropWhile isBlank r2 of
                       [] \<Rightarrow> None
                     | q # r4 \<Rightarrow>
                         if q \<noteq> CHR ''='' \<or> newline \<in> set r4 then None
                         else (case dropWhile isBlank r4 of
                                 c # _ \<Rightarrow> Some [c]
                               | [] \<Rightarrow> if r4 = [] then None else Some [last r4]))))"

definition possibleParserDirective :: "Directive \<Rightarrow> string \<Rightarrow> Directive \<times> error option" where
  "possibleParserDirective d line =
     (if processingComplete d then (d, None)
      else (case tokenEscapeCommand (ToLower line) of
              Some escapechar \<Rightarrow>
                if escapeSeen d then (d, Some DuplicateEscape)
                else setEscapeToken (d\<lparr>escapeSeen := True\<rparr>) escapechar
            | None \<Rightarrow> (d\<lparr>processingComplete := True\<rparr>, None)))"

definition DefaultEscapeToken :: char where
  "DefaultEscapeToken = backslash"

definition NewDefaultDirective :: Directive where
  "NewDefaultDirective =
     fst (setEscapeToken
            \<lparr>escapeToken = CHR 0x00, lineEscapeRegex = CHR 0x00,
             processingComplete = False, escapeSeen = False\<rparr>
            [DefaultEscapeToken])"

subsection \<open>Comments and the line normaliser\<close>

text \<open>
  \<open>tokenComment\<close> is \<open>^#.*$\<close>: the text starts with \<open>#\<close> and holds no line feed.
  \<open>trimComments\<close> replaces every match by the empty text; the pattern is anchored at
  the start, so the whole text goes or nothing does.
\<close>

definition tokenComment :: "string \<Rightarrow> bool" where
  "tokenComment s \<longleftrightarrow> (case s of [] \<Rightarrow> False | c # r \<Rightarrow> c = CHR ''#'' \<and> newline \<notin> set r)"

definition trimComments :: "string \<Rightarrow> string" where
  "trimComments src = (if tokenComment src then [] else src)"

definition isComment :: "string \<Rightarrow> bool" where
  "isComment line \<longleftrightarrow> tokenComment (trimWhitespace line)"

definition isEmptyContinuationLine :: "string \<Rightarrow> bool" where
  "isEmptyContinuationLine line \<longleftrightarrow> length (trimWhitespace line) = 0"

definition processLine :: "Directive \<Rightarrow> string \<Rightarrow> bool \<Rightarrow> string \<times> Directive \<times> error option" where
  "processLine d token stripLeftWhitespace =
     (let token' = (if stripLeftWhitespace then trimWhitespace token else token);
          (d', err) = possibleParserDirective d token'
      in (trimComments token', d', err))"

subsection \<open>The continuation resolver\<close>

text \<open>
  \<open>lineEscapeRegex\<close>, \<open>\s[ \t]*$\<close> with \<open>s\<close> the backslash or the backtick (the
  characters \<open>setEscapeToken\<close> admits), matches when the last byte that is no blank is
  the escape character; \<open>ReplaceAllString\<close> then removes that character and the blanks
  after it.
\<close>

definition lineEscapeMatch :: "char \<Rightarrow> string \<Rightarrow> bool" where
  "lineEscapeMatch esc line \<longleftrightarrow>
     (case dropWhile isBlank (rev line) of [] \<Rightarrow> False | c # _ \<Rightarrow> c = esc)"

definition lineEscapeReplace :: "char \<Rightarrow> string \<Rightarrow> string" where
  "lineEscapeReplace esc line =
     (if lineEscapeMatch esc line then rev (tl (dropWhile isBlank (rev line))) else line)"

text \<open>
  \<open>lineJSONArrayContinuator\<close> is \<open>[^"]*\[[^\]]*$\<close>, not anchored at the start: the
  part \<open>[^"]*\<close> may match the empty text right before a \<open>[\<close>, so the pattern matches
  when some \<open>[\<close> has no \<open>]\<close> after it.
\<close>

definition lineJSONArrayContinuator :: "string \<Rightarrow> bool" where
  "lineJSONArrayContinuator line \<longleftrightarrow>
     CHR ''['' \<in> set (takeWhile (\<lambda>c. c \<noteq> CHR '']'') (rev line))"

definition continuateLine :: "string \<Rightarrow> Directive \<Rightarrow> string \<times> bool" where
  "continuateLine line d =
     (if lineEscapeMatch (lineEscapeRegex d) line
      then (lineEscapeReplace (lineEscapeRegex d) line, False)
      else if lineJSONArrayContinuator line then (line, False)
      else (line, True))"

subsection \<open>The instruction dispatcher\<close>

text \<open>
  \<open>splitCommand\<close>, the table \<open>dispatch\<close> and the argument parsers (\<open>parseIgnore\<close> among
  them) live in other files of the package. \<open>newNodeFromLine\<close> takes them as an
  environment: \<open>splitCommand\<close> returns the command, the flags and the arguments, or an
  error message; an argument parser returns the \<open>Next\<close> chain and the attributes, or an
  error message.
\<close>

type_synonym lineParser = "string \<Rightarrow> Directive \<Rightarrow> string + (Node option \<times> (string \<rightharpoonup> bool))"

record Env =
  splitCommand :: "string \<Rightarrow> string + (string \<times> string list \<times> string)"
  dispatch :: "string \<rightharpoonup> lineParser"
  parseIgnore :: lineParser

definition newNodeFromLine :: "Env \<Rightarrow> string \<Rightarrow> Directive \<Rightarrow> error + Node" where
  "newNodeFromLine env line directive =
     (case splitCommand env line of
        Inl err \<Rightarrow> Inl (ArgumentError err)
      | Inr (cmd, flags, args) \<Rightarrow>
          (let fn = (case dispatch env cmd of None \<Rightarrow> parseIgnore env | Some f \<Rightarrow> f)
           in case fn args directive of
                Inl err \<Rightarrow> Inl (ArgumentError err)
              | Inr (nxt, attrs) \<Rightarrow> Inr (Node cmd nxt [] attrs line flags 0 0)))"

subsection \<open>The driver loop of Parse\<close>

record Result =
  AST :: Node
  EscapeToken :: char
  Warnings :: "string list"

definition emptyContinuationWarning :: "string \<Rightarrow> string" where
  "emptyContinuationWarning line =
     ''[WARNING]: Empty continuation line found in:'' @ [newline] @ ''    '' @ line"

definition deprecationWarning :: string where
  "deprecationWarning =
     ''[WARNING]: Empty continuation lines will become errors in a future release.''"

subsection \<open>The scanner\<close>

text \<open>
  \<open>bufio.Scanner\<close> with its default split function \<open>ScanLines\<close> and its default
  buffer, on a reader that is a byte sequence in memory. The model of a scanner is the
  list of what its successive calls of \<open>Scan\<close> return, \<open>Some\<close> token for true and \<open>None\<close>
  for false, together with the error that \<open>Err\<close> reports; past the end of the list
  \<open>Scan\<close> returns false.

  A token is the text up to the next line feed, without one trailing carriage return; a
  last line without line feed is a token when it is not empty. When the bytes of a line
  before its line feed fill the buffer of \<open>MaxScanTokenSize\<close> bytes, \<open>Scan\<close> sets
  \<open>ErrTooLong\<close> and returns false, and the buffer stays as it is: a further call of
  \<open>Scan\<close> hands the buffered bytes to \<open>ScanLines\<close> as the last data and returns them as a
  token, and every call after that returns false. The bytes behind the buffer are never
  read. \<open>ErrOther\<close> stands for the error of another reader; after it, and at the end of
  the input, \<open>Scan\<close> keeps returning false.
\<close>

datatype scanError = ErrTooLong | ErrOther string

definition MaxScanTokenSize :: nat where
  "MaxScanTokenSize = 64 * 1024"

definition dropCR :: "string \<Rightarrow> string" where
  "dropCR s = (if s \<noteq> [] \<and> last s = CHR 0x0D then butlast s else s)"

function scanLines :: "nat \<Rightarrow> string \<Rightarrow> string option list \<times> scanError option" where
  "scanLines m dat =
     (if dat = [] then ([], None)
      else if m \<le> length (takeWhile (\<lambda>c. c \<noteq> newline) dat)
      then ([None, Some (dropCR (take m dat))], Some ErrTooLong)
      else (case dropWhile (\<lambda>c. c \<noteq> newline) dat of
              [] \<Rightarrow> ([Some (dropCR dat)], None)
            | nl # rest \<Rightarrow>
                (case scanLines m rest of
                   (scans, err) \<Rightarrow>
                     (Some (dropCR (takeWhile (\<lambda>c. c \<noteq> newline) dat)) # scans, err))))"
  by pat_completeness auto
termination
proof (relation "measure (\<lambda>(m, dat). length dat)")
  show "wf (measure (\<lambda>(m, dat). length dat))" by simp
next
  fix m :: nat and dat :: string and nl rest
  assume "dropWhile (\<lambda>c. c \<noteq> newline) dat = nl # rest"
  then have "length (nl # rest) \<le> length dat"
    by (metis length_dropWhile_le)
  then show "((m, rest), (m, dat)) \<in> measure (\<lambda>(m, dat). length dat)" by simp
qed

declare scanLines.simps [simp del]

definition handleScannerError :: "scanError option \<Rightarrow> error option" where
  "handleScannerError err =
     (case err of
        Some ErrTooLong \<Rightarrow> Some (LineTooLong (MaxScanTokenSize - 1))
      | Some (ErrOther msg) \<Rightarrow> Some (ReadError msg)
      | None \<Rightarrow> None)"

subsection \<open>The two loops\<close>

text \<open>
  The inner loop \<open>for !isEndOfLine && scanner.Scan()\<close> reads continuation lines. It
  calls \<open>Scan\<close> only while the statement is incomplete, and ends when the statement is
  complete or \<open>Scan\<close> returns false. It returns the directive, the logical line,
  \<open>isEndOfLine\<close>, \<open>hasEmptyContinuationLine\<close>, the line counter and what the scanner has
  yet to return, or the error of \<open>processLine\<close>.
\<close>

fun continuationLoop ::
  "Directive \<Rightarrow> string \<Rightarrow> bool \<Rightarrow> bool \<Rightarrow> int \<Rightarrow> string option list \<Rightarrow>
     error + (Directive \<times> string \<times> bool \<times> bool \<times> int \<times> string option list)" where
  "continuationLoop d line isEndOfLine hasEmpty currentLine [] =
     Inr (d, line, isEndOfLine, hasEmpty, currentLine, [])"
| "continuationLoop d line isEndOfLine hasEmpty currentLine (None # scans) =
     (if isEndOfLine then Inr (d, line, isEndOfLine, hasEmpty, currentLine, None # scans)
      else Inr (d, line, isEndOfLine, hasEmpty, currentLine, scans))"
| "continuationLoop d line isEndOfLine hasEmpty currentLine (Some tok # scans) =
     (if isEndOfLine then Inr (d, line, isEndOfLine, hasEmpty, currentLine, Some tok # scans)
      else (case processLine d tok False of
              (bytesRead, d', Some err) \<Rightarrow> Inl err
            | (bytesRead, d', None) \<Rightarrow>
                if isComment tok
                then continuationLoop d' line isEndOfLine hasEmpty (currentLine + 1) scans
                else if isEmptyContinuationLine bytesRead
                then continuationLoop d' line isEndOfLine True (currentLine + 1) scans
                else (case continuateLine (line @ bytesRead) d' of
                        (line', isEndOfLine') \<Rightarrow>
                          continuationLoop d' line' isEndOfLine' hasEmpty (currentLine + 1) scans)))"

lemma continuationLoop_length:
  "continuationLoop d line e h cur scans = Inr (d', line', e', h', cur', rest)
   \<Longrightarrow> length rest \<le> length scans"
proof (induction scans arbitrary: d line e h cur)
  case Nil
  then show ?case by simp
next
  case (Cons x scans)
  show ?case
  proof (cases x)
    case None
    with Cons.prems show ?thesis by (auto split: if_splits)
  next
    case (Some tok)
    show ?thesis
    proof (cases e)
      case True
      with Cons.prems Some show ?thesis by simp
    next
      case False
      obtain b d1 er where pl: "processLine d tok False = (b, d1, er)"
        by (cases "processLine d tok False") auto
      show ?thesis
      proof (cases er)
        case (Some y)
        with Cons.prems False pl \<open>x = Some tok\<close> show ?thesis by simp
      next
        case None
        obtain l2 e2 where cl: "continuateLine (line @ b) d1 = (l2, e2)"
          by (cases "continuateLine (line @ b) d1") auto
        from Cons.prems False pl None cl \<open>x = Some tok\<close>
        have "\<exists>l e h. continuationLoop d1 l e h (cur + 1) scans
                  = Inr (d', line', e', h', cur', rest)"
          by (auto split: if_splits)
        then show ?thesis using Cons.IH by fastforce
      qed
    qed
  qed
qed

text \<open>
  The outer loop \<open>for scanner.Scan()\<close> ends when \<open>Scan\<close> returns false. Its state is
  the directive, the line counter, the root and the warnings; it returns the state at
  its end, or the error of a \<open>return nil, err\<close>. After an inner loop that \<open>Scan\<close> has
  ended, the outer loop calls \<open>Scan\<close> once more.
\<close>

function parseLoop ::
  "Env \<Rightarrow> Directive \<Rightarrow> int \<Rightarrow> Node \<Rightarrow> string list \<Rightarrow> string option list \<Rightarrow>
     error + (Directive \<times> int \<times> Node \<times> string list)" where
  "parseLoop env d currentLine root warnings [] = Inr (d, currentLine, root, warnings)"
| "parseLoop env d currentLine root warnings (None # scans) =
     Inr (d, currentLine, root, warnings)"
| "parseLoop env d currentLine root warnings (Some tok # scans) =
     (case processLine d (if currentLine = 0 then TrimPrefix tok utf8bom else tok) True of
        (bytesRead, d1, Some err) \<Rightarrow> Inl err
      | (bytesRead, d1, None) \<Rightarrow>
          (case continuateLine bytesRead d1 of
             (line, isEndOfLine) \<Rightarrow>
               if isEndOfLine \<and> line = []
               then parseLoop env d1 (currentLine + 1) root warnings scans
               else (case continuationLoop d1 line isEndOfLine False (currentLine + 1) scans of
                       Inl err \<Rightarrow> Inl err
                     | Inr (d2, line2, isEndOfLine2, hasEmpty, currentLine2, rest) \<Rightarrow>
                         (case newNodeFromLine env line2 d2 of
                            Inl err \<Rightarrow> Inl err
                          | Inr child \<Rightarrow>
                              parseLoop env d2 currentLine2
                                (AddChild root child (currentLine + 1) currentLine2)
                                (if hasEmpty then warnings @ [emptyContinuationWarning line2]
                                 else warnings)
                                rest))))"
  by pat_completeness auto
termination
  by (relation "measure (\<lambda>(env, d, cur, root, warnings, scans). length scans)")
     (auto dest: continuationLoop_length)

subsection \<open>Parse\<close>

text \<open>
  \<open>ParseLines\<close> is \<open>Parse\<close> on a scanner: on what its calls of \<open>Scan\<close> return and on the
  error it reports (\<open>scanner.Err()\<close>). \<open>Parse\<close> runs it on the scanner of the input. Go
  returns a pair of a result pointer and an error, and either may be nil.
\<close>

definition rootInit :: Node where
  "rootInit = Node [] None [] Map.empty [] [] (- 1) 0"

definition ParseLines ::
  "Env \<Rightarrow> string option list \<Rightarrow> scanError option \<Rightarrow> Result option \<times> error option" where
  "ParseLines env scans scanErr =
     (case parseLoop env NewDefaultDirective 0 rootInit [] scans of
        Inl err \<Rightarrow> (None, Some err)
      | Inr (d, currentLine, root, warnings) \<Rightarrow>
          (let warnings' = (if length warnings > 0 then warnings @ [deprecationWarning]
                            else warnings)
           in if StartLine root < 0 then (None, Some NoInstructions)
              else (Some \<lparr>AST = root, EscapeToken = escapeToken d, Warnings = warnings'\<rparr>,
                    handleScannerError scanErr)))"

definition Parse :: "Env \<Rightarrow> string \<Rightarrow> Result option \<times> error option" where
  "Parse env rwc =
     (case scanLines MaxScanTokenSize rwc of (scans, err) \<Rightarrow> ParseLines env scans err)"

subsection \<open>Notions used to state the properties\<close>

text \<open>
  A directive that \<open>setEscapeToken\<close> has set: the escape character is backslash or
  backtick and the line-escape pattern is compiled from it. Every directive \<open>Parse\<close>
  works with is of this kind.
\<close>

definition escapeSet :: "Directive \<Rightarrow> bool" where
  "escapeSet d \<longleftrightarrow>
     lineEscapeRegex d = escapeToken d \<and> (escapeToken d = backslash \<or> escapeToken d = backtick)"

text \<open>
  The bracket rule in the words of the specification: the text contains an opening
  \<open>[\<close>, and after the last \<open>[\<close> there is neither a closing \<open>]\<close> nor a quote. The
  resolver of the specification applies the escape rule first, then this rule.
\<close>

definition specUnterminatedList :: "string \<Rightarrow> bool" where
  "specUnterminatedList s \<longleftrightarrow>
     CHR ''['' \<in> set s \<and>
     (let b = takeWhile (\<lambda>c. c \<noteq> CHR ''['') (rev s)
      in CHR '']'' \<notin> set b \<and> dquote \<notin> set b)"

definition continuateLineSpec :: "string \<Rightarrow> Directive \<Rightarrow> string \<times> bool" where
  "continuateLineSpec line d =
     (if lineEscapeMatch (escapeToken d) line
      then (lineEscapeReplace (escapeToken d) line, False)
      else if specUnterminatedList line then (line, False)
      else (line, True))"

text \<open>
  Modelled from the spec: \<open>splitCommand\<close> and \<open>parseIgnore\<close> are in files of the
  package that are not at hand. This instance of the environment serves to run \<open>Parse\<close>
  on examples: the command is the first word in lower case, there are no flags, no
  command is registered, and the fallback parser returns an empty chain and no
  attributes, as the specification says of unknown instructions. The theorems hold for
  every environment.
\<close>

definition exampleEnv :: Env where
  "exampleEnv =
     \<lparr>splitCommand =
        (\<lambda>line. Inr (ToLower (takeWhile (\<lambda>c. \<not> isSpaceByte c) line), [],
                     dropWhile isSpaceByte (dropWhile (\<lambda>c. \<not> isSpaceByte c) line))),
      dispatch = Map.empty,
      parseIgnore = (\<lambda>args d. Inr (None, Map.empty))\<rparr>"

text \<open>
  What \<open>Parse\<close> makes of a physical line that starts a statement: the escape directive
  it names, if it matches \<open>tokenEscapeCommand\<close>, and whether nothing is left of it once
  it is trimmed and its comment is gone (a blank line or a comment line). \<open>stripBOM\<close>
  takes the byte-order mark off the first line, as \<open>Parse\<close> does.
\<close>

definition directiveLine :: "string \<Rightarrow> string option" where
  "directiveLine tok = tokenEscapeCommand (ToLower (trimWhitespace tok))"

definition blankOrComment :: "string \<Rightarrow> bool" where
  "blankOrComment tok \<longleftrightarrow> trimComments (trimWhitespace tok) = []"

definition stripBOM :: "string list \<Rightarrow> string list" where
  "stripBOM toks = (case toks of [] \<Rightarrow> [] | t # ts \<Rightarrow> TrimPrefix t utf8bom # ts)"

text \<open>
  The physical lines of a scanner: \<open>leadingLines\<close> are the tokens it returns before
  \<open>Scan\<close> first returns false, \<open>scannedLines\<close> all the tokens it can return, in their
  order. \<open>Parse\<close> counts its lines along \<open>scannedLines\<close>.
\<close>

fun leadingLines :: "string option list \<Rightarrow> string list" where
  "leadingLines [] = []"
| "leadingLines (None # scans) = []"
| "leadingLines (Some tok # scans) = tok # leadingLines scans"

fun scannedLines :: "string option list \<Rightarrow> string list" where
  "scannedLines [] = []"
| "scannedLines (None # scans) = scannedLines scans"
| "scannedLines (Some tok # scans) = tok # scannedLines scans"

text \<open>
  A continuation line that sets \<open>hasEmptyContinuationLine\<close>: it is no comment line and
  nothing but white space.
\<close>

definition emptyContinuation :: "string \<Rightarrow> bool" where
  "emptyContinuation tok \<longleftrightarrow> \<not> isComment tok \<and> isEmptyContinuationLine (trimComments tok)"

text \<open>The first line of a statement as \<open>processLine\<close> receives it.\<close>

definition firstToken :: "int \<Rightarrow> string \<Rightarrow> string" where
  "firstToken cur tok = (if cur = 0 then TrimPrefix tok utf8bom else tok)"

text \<open>
  Every node of a tree has its start line at or before its end line: the node itself,
  the nodes of its \<open>Next\<close> chain and its children. The argument parsers build the
  \<open>Next\<close> chains; \<open>parsersOrdered\<close> says that the chains they return are of this kind.
\<close>

fun linesOrdered :: "Node \<Rightarrow> bool" where
  "linesOrdered (Node v nx ch at orig fl s e) \<longleftrightarrow>
     s \<le> e \<and> (\<forall>n\<in>set_option nx. linesOrdered n) \<and> (\<forall>c\<in>set ch. linesOrdered c)"

definition parsersOrdered :: "Env \<Rightarrow> bool" where
  "parsersOrdered env \<longleftrightarrow>
     (\<forall>f args d nx attrs.
        (f = parseIgnore env \<or> f \<in> ran (dispatch env)) \<longrightarrow>
        f args d = Inr (Some nx, attrs) \<longrightarrow> linesOrdered nx)"

text \<open>
  The line spans of the root while the loop runs, with \<open>cur\<close> lines read: the root's
  start line is negative as long as it has no child, then it is the first child's start
  line and the root's end line is the last child's end line; the children's spans lie
  within the lines read, in increasing order.
\<close>

definition spansOrdered :: "int \<Rightarrow> Node \<Rightarrow> bool" where
  "spansOrdered cur root \<longleftrightarrow>
     0 \<le> cur \<and>
     (Children root = [] \<longrightarrow> StartLine root < 0) \<and>
     (Children root \<noteq> [] \<longrightarrow>
        StartLine root = StartLine (hd (Children root)) \<and>
        endLine root = endLine (last (Children root))) \<and>
     (\<forall>c\<in>set (Children root). 1 \<le> StartLine c \<and> StartLine c \<le> endLine c \<and> endLine c \<le> cur) \<and>
     sorted (map StartLine (Children root)) \<and> sorted (map endLine (Children root))"

text \<open>
  The continuation lines of a statement are the physical lines after its start line, up
  to its end line. \<open>statementWarnings\<close> lists one warning for each top-level statement
  that had an empty continuation line among them.
\<close>

definition continuationLines :: "string list \<Rightarrow> Node \<Rightarrow> string list" where
  "continuationLines toks c = drop (nat (StartLine c)) (take (nat (endLine c)) toks)"

definition hadEmptyContinuation :: "string list \<Rightarrow> Node \<Rightarrow> bool" where
  "hadEmptyContinuation toks c \<longleftrightarrow> (\<exists>t\<in>set (continuationLines toks c). emptyContinuation t)"

definition statementWarnings :: "string list \<Rightarrow> Node \<Rightarrow> string list" where
  "statementWarnings toks root =
     map (\<lambda>c. emptyContinuationWarning (Original c))
       (filter (hadEmptyContinuation toks) (Children root))"

text \<open>
  A physical line that matches the escape-directive pattern, replaced by an ordinary
  comment line.
\<close>

definition asComment :: "string \<Rightarrow> string" where
  "asComment tok = (if directiveLine tok \<noteq> None then ''#'' else tok)"

section \<open>Properties\<close>

text \<open>The defining equations that evaluate the parser on a concrete input.\<close>

lemmas parse_defs =
  ParseLines_def Parse_def NewDefaultDirective_def setEscapeToken_def processLine_def
  rootInit_def possibleParserDirective_def tokenEscapeCommand_def ToLower_def toLowerByte_def
  isBlank_def trimComments_def tokenComment_def continuateLine_def lineEscapeMatch_def
  lineEscapeReplace_def lineJSONArrayContinuator_def TrimPrefix_def utf8bom_def newline_def
  backslash_def backtick_def DefaultEscapeToken_def isSpaceByte_def isSpace2_def isSpace3_def
  isComment_def isEmptyContinuationLine_def newNodeFromLine_def exampleEnv_def
  emptyContinuationWarning_def deprecationWarning_def handleScannerError_def Let_def

subsection \<open>The two patterns of the continuation resolver\<close>

lemma dropWhile_rev_blank:
  assumes "\<forall>c\<in>set ws. isBlank c" and "\<not> isBlank e"
  shows "dropWhile isBlank (rev (pre @ e # ws)) = e # rev pre"
proof -
  have "dropWhile isBlank (rev ws @ e # rev pre) = dropWhile isBlank (e # rev pre)"
    using assms(1) by (intro dropWhile_append2) simp
  then show ?thesis using assms(2) by simp
qed

lemma lineEscapeMatch_iff:
  assumes "\<not> isBlank e"
  shows "lineEscapeMatch e line \<longleftrightarrow> (\<exists>pre ws. line = pre @ e # ws \<and> (\<forall>c\<in>set ws. isBlank c))"
proof
  assume m: "lineEscapeMatch e line"
  then obtain r where r: "dropWhile isBlank (rev line) = e # r"
    by (auto simp: lineEscapeMatch_def split: list.splits)
  have "rev line = takeWhile isBlank (rev line) @ e # r"
    using r takeWhile_dropWhile_id[of isBlank "rev line"] by simp
  then have "line = rev r @ e # rev (takeWhile isBlank (rev line))"
    by (metis rev_append rev.simps(2) rev_rev_ident append.assoc append_Cons append_Nil)
  moreover have "\<forall>c\<in>set (rev (takeWhile isBlank (rev line))). isBlank c"
    by (auto dest: set_takeWhileD)
  ultimately show "\<exists>pre ws. line = pre @ e # ws \<and> (\<forall>c\<in>set ws. isBlank c)" by blast
next
  assume "\<exists>pre ws. line = pre @ e # ws \<and> (\<forall>c\<in>set ws. isBlank c)"
  then obtain pre ws where "line = pre @ e # ws" "\<forall>c\<in>set ws. isBlank c" by blast
  then show "lineEscapeMatch e line"
    using dropWhile_rev_blank[OF _ assms, of ws pre] by (simp add: lineEscapeMatch_def)
qed

lemma lineEscapeReplace_eq:
  assumes "\<not> isBlank e" "\<forall>c\<in>set ws. isBlank c"
  shows "lineEscapeReplace e (pre @ e # ws) = pre"
proof -
  have "lineEscapeMatch e (pre @ e # ws)" using assms lineEscapeMatch_iff by blast
  then show ?thesis
    using dropWhile_rev_blank[OF assms(2,1), of pre] by (simp add: lineEscapeReplace_def)
qed

lemma lineJSONArrayContinuator_iff:
  "lineJSONArrayContinuator line \<longleftrightarrow> (\<exists>a b. line = a @ CHR ''['' # b \<and> CHR '']'' \<notin> set b)"
proof
  assume "lineJSONArrayContinuator line"
  then have "CHR ''['' \<in> set (takeWhile (\<lambda>c. c \<noteq> CHR '']'') (rev line))"
    by (simp add: lineJSONArrayContinuator_def)
  then obtain u v where uv: "takeWhile (\<lambda>c. c \<noteq> CHR '']'') (rev line) = u @ CHR ''['' # v"
    by (meson split_list)
  have "rev line = (u @ CHR ''['' # v) @ dropWhile (\<lambda>c. c \<noteq> CHR '']'') (rev line)"
    using takeWhile_dropWhile_id[of "\<lambda>c. c \<noteq> CHR '']''" "rev line"] uv by simp
  then have "line = rev (dropWhile (\<lambda>c. c \<noteq> CHR '']'') (rev line)) @ rev v @ CHR ''['' # rev u"
    by (metis rev_append rev.simps(2) rev_rev_ident append.assoc append_Cons append_Nil)
  moreover have "CHR '']'' \<notin> set (rev u)"
  proof -
    have "set u \<subseteq> set (takeWhile (\<lambda>c. c \<noteq> CHR '']'') (rev line))" using uv by auto
    then show ?thesis by (auto dest: set_takeWhileD)
  qed
  ultimately show "\<exists>a b. line = a @ CHR ''['' # b \<and> CHR '']'' \<notin> set b"
    by (metis append.assoc)
next
  assume "\<exists>a b. line = a @ CHR ''['' # b \<and> CHR '']'' \<notin> set b"
  then obtain a b where ab: "line = a @ CHR ''['' # b" "CHR '']'' \<notin> set b" by blast
  have "takeWhile (\<lambda>c. c \<noteq> CHR '']'') (rev b @ CHR ''['' # rev a)
        = rev b @ takeWhile (\<lambda>c. c \<noteq> CHR '']'') (CHR ''['' # rev a)"
    using ab(2) by (intro takeWhile_append2) auto
  then show "lineJSONArrayContinuator line"
    using ab(1) by (simp add: lineJSONArrayContinuator_def)
qed

lemma escapeSet_not_blank: "escapeSet d \<Longrightarrow> \<not> isBlank (escapeToken d)"
  by (auto simp: escapeSet_def isBlank_def backslash_def backtick_def)

lemma escapeSet_default: "escapeSet NewDefaultDirective"
  by (simp add: escapeSet_def NewDefaultDirective_def setEscapeToken_def DefaultEscapeToken_def
      backslash_def backtick_def)

text \<open>
  C1 (as amended). \<open>continuateLine\<close> applies two checks in order. First: when the text
  ends with the active escape character followed by blanks (spaces and tabs) only, it
  returns the text before that escape character and reports the statement incomplete.
  Otherwise: when some \<open>[\<close> of the text has no \<open>]\<close> after it, it returns the text as it is
  and reports incomplete, whether or not a quote follows the \<open>[\<close>. Otherwise it returns
  the text as it is and reports complete.
\<close>

theorem continuateLine_two_checks:
  assumes "escapeSet d"
  shows "((\<forall>c\<in>set ws. isBlank c) \<longrightarrow> continuateLine (pre @ escapeToken d # ws) d = (pre, False)) \<and>
     continuateLine line d =
       (if \<exists>pre ws. line = pre @ escapeToken d # ws \<and> (\<forall>c\<in>set ws. isBlank c)
        then (lineEscapeReplace (escapeToken d) line, False)
        else if \<exists>a b. line = a @ CHR ''['' # b \<and> CHR '']'' \<notin> set b then (line, False)
        else (line, True))"
proof -
  have nb: "\<not> isBlank (escapeToken d)"
    using assms by (rule escapeSet_not_blank)
  have eq: "lineEscapeRegex d = escapeToken d" using assms by (simp add: escapeSet_def)
  have one: "continuateLine line d =
     (if \<exists>pre ws. line = pre @ escapeToken d # ws \<and> (\<forall>c\<in>set ws. isBlank c)
      then (lineEscapeReplace (escapeToken d) line, False)
      else if \<exists>a b. line = a @ CHR ''['' # b \<and> CHR '']'' \<notin> set b then (line, False)
      else (line, True))"
    unfolding continuateLine_def eq lineEscapeMatch_iff[OF nb] lineJSONArrayContinuator_iff
    by simp
  have two: "continuateLine (pre @ escapeToken d # ws) d = (pre, False)"
    if "\<forall>c\<in>set ws. isBlank c"
    using that lineEscapeReplace_eq[OF nb that] lineEscapeMatch_iff[OF nb]
    unfolding continuateLine_def eq by auto
  from one two show ?thesis by blast
qed

theorem continuateLine_two_checks_witness:
  "escapeSet NewDefaultDirective \<and> list_all isBlank ''  '' \<and>
   escapeToken NewDefaultDirective = backslash \<and>
   continuateLine (''RUN a '' @ backslash # ''  '') NewDefaultDirective = (''RUN a '', False)"
proof -
  have b: "\<forall>c\<in>set ''  ''. isBlank c" by (simp add: isBlank_def)
  have t: "escapeToken NewDefaultDirective = backslash"
    by (simp add: NewDefaultDirective_def setEscapeToken_def DefaultEscapeToken_def)
  have "continuateLine (''RUN a '' @ escapeToken NewDefaultDirective # ''  '') NewDefaultDirective
          = (''RUN a '', False)"
    using continuateLine_two_checks[OF escapeSet_default, of "''  ''" "''RUN a ''", THEN conjunct1] b
    by blast
  with b t show ?thesis using escapeSet_default by (simp add: isBlank_def)
qed

text \<open>
  The resolver of the specification's words and \<open>continuateLine\<close> differ on the text
  \<open>COPY ["a",\<close>: a quote follows the last \<open>[\<close>, and the code still reports the statement
  incomplete.
\<close>

theorem continuateLine_quote_counterexample:
  "continuateLine (''COPY ['' @ [dquote] @ ''a'' @ [dquote] @ '','') NewDefaultDirective
     = (''COPY ['' @ [dquote] @ ''a'' @ [dquote] @ '','', False) \<and>
   continuateLineSpec (''COPY ['' @ [dquote] @ ''a'' @ [dquote] @ '','') NewDefaultDirective
     = (''COPY ['' @ [dquote] @ ''a'' @ [dquote] @ '','', True)"
  by (simp add: continuateLine_def continuateLineSpec_def lineEscapeMatch_def
      lineJSONArrayContinuator_def specUnterminatedList_def NewDefaultDirective_def
      setEscapeToken_def DefaultEscapeToken_def backslash_def backtick_def dquote_def
      isBlank_def)

subsection \<open>Comments\<close>

text \<open>
  C4 (as amended). The line normaliser strips whole-line comments only. The text it
  hands on is empty when the line, left-trimmed if it starts a statement, begins with
  \<open>#\<close> (and holds no line feed); every other line is handed on unchanged, with any \<open>#\<close>
  further right and the text after it.
\<close>

theorem processLine_strips_whole_line_comments_only:
  "fst (processLine d token stripLeftWhitespace) =
     (let t = (if stripLeftWhitespace then trimWhitespace token else token)
      in if t \<noteq> [] \<and> hd t = CHR ''#'' \<and> newline \<notin> set t then [] else t)"
  by (cases "if stripLeftWhitespace then trimWhitespace token else token")
     (auto simp: processLine_def trimComments_def tokenComment_def Let_def newline_def
       split: prod.splits)

text \<open>
  A line with instruction content before a \<open>#\<close> keeps its comment: the logical line
  handed to the dispatcher, recorded in \<open>Original\<close>, still holds \<open># b\<close>.
\<close>

theorem trailing_comment_counterexample:
  "fst (processLine NewDefaultDirective ''RUN a # b'' True) = ''RUN a # b'' \<and>
   ParseLines exampleEnv [Some ''RUN a # b''] None =
     (Some \<lparr>AST = Node [] None [Node ''run'' None [] Map.empty ''RUN a # b'' [] 1 1]
                    Map.empty [] [] 1 1,
            EscapeToken = backslash, Warnings = []\<rparr>, None)"
  by (simp add: parse_defs)

subsection \<open>Directive lines are comment lines\<close>

lemma toLowerByte_range:
  "toLowerByte c = c \<or> toLowerByte c \<in> set ''abcdefghijklmnopqrstuvwxyz''"
proof (cases "map_of (zip ''ABCDEFGHIJKLMNOPQRSTUVWXYZ'' ''abcdefghijklmnopqrstuvwxyz'') c")
  case None
  then show ?thesis by (simp add: toLowerByte_def)
next
  case (Some l)
  then have "(c, l) \<in> set (zip ''ABCDEFGHIJKLMNOPQRSTUVWXYZ'' ''abcdefghijklmnopqrstuvwxyz'')"
    by (rule map_of_SomeD)
  then have "l \<in> set ''abcdefghijklmnopqrstuvwxyz''" by (rule set_zip_rightD)
  with Some show ?thesis by (simp add: toLowerByte_def)
qed

lemma toLowerByte_hash: "toLowerByte c = CHR ''#'' \<Longrightarrow> c = CHR ''#''"
  using toLowerByte_range[of c] by auto

lemma toLowerByte_newline: "toLowerByte newline = newline"
  by (simp add: toLowerByte_def newline_def)

lemma stripPrefix_Some: "stripPrefix p s = Some r \<Longrightarrow> s = p @ r"
  by (induction p s rule: stripPrefix.induct) (auto split: if_splits)

lemma tokenEscapeCommand_no_newline:
  assumes "tokenEscapeCommand s = Some e"
  shows "s \<noteq> [] \<and> hd s = CHR ''#'' \<and> newline \<notin> set (tl s)"
proof -
  from assms obtain r0 where s: "s = CHR ''#'' # r0"
    by (auto simp: tokenEscapeCommand_def split: list.splits if_splits)
  from assms s obtain r2 where r2: "stripPrefix ''escape'' (dropWhile isBlank r0) = Some r2"
    by (auto simp: tokenEscapeCommand_def split: option.splits)
  from assms s r2 obtain r4 where r4: "dropWhile isBlank r2 = CHR ''='' # r4" "newline \<notin> set r4"
    by (auto simp: tokenEscapeCommand_def split: list.splits if_splits)
  have blank: "\<And>xs. newline \<notin> set (takeWhile isBlank xs)"
    by (auto dest!: set_takeWhileD simp: isBlank_def newline_def)
  have "set r2 = set (takeWhile isBlank r2 @ dropWhile isBlank r2)"
    by (simp only: takeWhile_dropWhile_id)
  then have s2: "set r2 = set (takeWhile isBlank r2) \<union> insert (CHR ''='') (set r4)"
    by (simp add: r4(1))
  have ne: "newline \<noteq> CHR ''=''" by (simp add: newline_def)
  have n2: "newline \<notin> set r2"
    unfolding s2 using blank[of r2] r4(2) ne by blast
  have d0: "dropWhile isBlank r0 = ''escape'' @ r2" using r2 by (rule stripPrefix_Some)
  have "set r0 = set (takeWhile isBlank r0 @ dropWhile isBlank r0)"
    by (simp only: takeWhile_dropWhile_id)
  then have s0: "set r0 = set (takeWhile isBlank r0) \<union> (set ''escape'' \<union> set r2)"
    by (simp only: d0 set_append)
  have "newline \<notin> set ''escape''" by (simp add: newline_def)
  then have "newline \<notin> set r0"
    unfolding s0 using blank[of r0] n2 by blast
  with s show ?thesis by simp
qed

lemma directive_is_comment:
  assumes "tokenEscapeCommand (ToLower t) = Some e"
  shows "tokenComment t"
proof -
  from tokenEscapeCommand_no_newline[OF assms]
  have a: "ToLower t \<noteq> []" "hd (ToLower t) = CHR ''#''" "newline \<notin> set (tl (ToLower t))"
    by auto
  then obtain h r where t: "t = h # r" by (cases t) (auto simp: ToLower_def)
  have "h = CHR ''#''" using a(2) t by (simp add: ToLower_def toLowerByte_hash)
  moreover have "newline \<notin> set r"
  proof
    assume "newline \<in> set r"
    then have "toLowerByte newline \<in> set (map toLowerByte r)" by simp
    then show False using a(3) t by (simp add: ToLower_def toLowerByte_newline)
  qed
  ultimately show ?thesis using t by (simp add: tokenComment_def)
qed

lemma possibleParserDirective_complete:
  "processingComplete d \<Longrightarrow> possibleParserDirective d line = (d, None)"
  by (simp add: possibleParserDirective_def)

lemma processLine_complete:
  "processingComplete d \<Longrightarrow>
   processLine d tok s = (trimComments (if s then trimWhitespace tok else tok), d, None)"
  by (simp add: processLine_def possibleParserDirective_complete)

lemma processLine_fst:
  "fst (processLine d tok s) = trimComments (if s then trimWhitespace tok else tok)"
  by (simp add: processLine_def Let_def split: prod.splits)

lemma continuateLine_Nil: "continuateLine [] d = ([], True)"
  by (simp add: continuateLine_def lineEscapeMatch_def lineJSONArrayContinuator_def)

subsection \<open>One pass through the outer loop\<close>

lemma possibleParserDirective_error:
  "possibleParserDirective d line = (d', Some e) \<Longrightarrow> e = InvalidEscape \<or> e = DuplicateEscape"
  by (auto simp: possibleParserDirective_def setEscapeToken_def split: if_splits option.splits)

lemma processLine_error:
  "processLine d tok s = (b, d', Some e) \<Longrightarrow> e = InvalidEscape \<or> e = DuplicateEscape"
  by (auto simp: processLine_def Let_def split: prod.splits dest: possibleParserDirective_error)

lemma continuationLoop_error:
  "continuationLoop d line e h cur scans = Inl err \<Longrightarrow> err = InvalidEscape \<or> err = DuplicateEscape"
proof (induction scans arbitrary: d line e h cur)
  case Nil
  then show ?case by simp
next
  case (Cons x scans)
  show ?case
  proof (cases x)
    case None
    with Cons.prems show ?thesis by (auto split: if_splits)
  next
    case (Some tok)
    obtain b d1 er where pl: "processLine d tok False = (b, d1, er)"
      by (cases "processLine d tok False") auto
    obtain l2 e2 where cl: "continuateLine (line @ b) d1 = (l2, e2)"
      by (cases "continuateLine (line @ b) d1") auto
    show ?thesis
    proof (cases er)
      case (Some y)
      with Cons.prems pl \<open>x = Some tok\<close> show ?thesis
        by (auto split: if_splits dest: processLine_error)
    next
      case None
      with Cons.prems pl cl \<open>x = Some tok\<close>
      have "\<exists>l e h. continuationLoop d1 l e h (cur + 1) scans = Inl err"
        by (auto split: if_splits)
      then show ?thesis using Cons.IH by blast
    qed
  qed
qed

lemma newNodeFromLine_error:
  "newNodeFromLine env line d = Inl err \<Longrightarrow> \<exists>m. err = ArgumentError m"
  by (auto simp: newNodeFromLine_def Let_def split: sum.splits prod.splits)

text \<open>The cases of one pass through the outer loop, and the induction that follows them.\<close>

lemma parseLoop_Cons_cases [case_names ErrLine Skip ErrCont ErrNode Stmt]:
  obtains
    (ErrLine) b d1 e where
      "processLine d (firstToken cur tok) True = (b, d1, Some e)"
      "parseLoop env d cur root ws (Some tok # scans) = Inl e"
  | (Skip) d1 where
      "processLine d (firstToken cur tok) True = ([], d1, None)"
      "parseLoop env d cur root ws (Some tok # scans) = parseLoop env d1 (cur + 1) root ws scans"
  | (ErrCont) b d1 line isEnd e where
      "processLine d (firstToken cur tok) True = (b, d1, None)"
      "continuateLine b d1 = (line, isEnd)" "\<not> (isEnd \<and> line = [])"
      "continuationLoop d1 line isEnd False (cur + 1) scans = Inl e"
      "parseLoop env d cur root ws (Some tok # scans) = Inl e"
  | (ErrNode) b d1 line isEnd d2 line2 isEnd2 hasEmpty cur2 rest e where
      "processLine d (firstToken cur tok) True = (b, d1, None)"
      "continuateLine b d1 = (line, isEnd)" "\<not> (isEnd \<and> line = [])"
      "continuationLoop d1 line isEnd False (cur + 1) scans
         = Inr (d2, line2, isEnd2, hasEmpty, cur2, rest)"
      "newNodeFromLine env line2 d2 = Inl e"
      "parseLoop env d cur root ws (Some tok # scans) = Inl e"
  | (Stmt) b d1 line isEnd d2 line2 isEnd2 hasEmpty cur2 rest child where
      "processLine d (firstToken cur tok) True = (b, d1, None)"
      "continuateLine b d1 = (line, isEnd)" "\<not> (isEnd \<and> line = [])"
      "continuationLoop d1 line isEnd False (cur + 1) scans
         = Inr (d2, line2, isEnd2, hasEmpty, cur2, rest)"
      "newNodeFromLine env line2 d2 = Inr child"
      "parseLoop env d cur root ws (Some tok # scans)
         = parseLoop env d2 cur2 (AddChild root child (cur + 1) cur2)
             (if hasEmpty then ws @ [emptyContinuationWarning line2] else ws) rest"
proof -
  obtain b d1 er where pl: "processLine d (firstToken cur tok) True = (b, d1, er)"
    by (cases "processLine d (firstToken cur tok) True") auto
  obtain line isEnd where cl: "continuateLine b d1 = (line, isEnd)"
    by (cases "continuateLine b d1") auto
  show ?thesis
  proof (cases er)
    case (Some e)
    with pl show ?thesis by (intro ErrLine[of b d1 e]) (simp_all add: firstToken_def)
  next
    case None
    note er = this
    show ?thesis
    proof (cases "isEnd \<and> line = []")
      case True
      then have "b = []" using cl
        by (auto simp: continuateLine_def lineEscapeReplace_def split: if_splits)
      with pl er cl True show ?thesis
        by (intro Skip[of d1]) (simp_all add: firstToken_def)
    next
      case False
      note ne = this
      show ?thesis
      proof (cases "continuationLoop d1 line isEnd False (cur + 1) scans")
        case (Inl e)
        with pl er cl ne show ?thesis
          by (intro ErrCont[of b d1 line isEnd e]) (auto simp: firstToken_def)
      next
        case (Inr r)
        obtain d2 line2 isEnd2 hasEmpty cur2 rest
          where r: "r = (d2, line2, isEnd2, hasEmpty, cur2, rest)"
          by (cases r) auto
        show ?thesis
        proof (cases "newNodeFromLine env line2 d2")
          case (Inl e)
          with pl er cl ne Inr r show ?thesis
            by (intro ErrNode[of b d1 line isEnd d2 line2 isEnd2 hasEmpty cur2 rest e])
               (auto simp: firstToken_def)
        next
          case child: (Inr child)
          with pl er cl ne Inr r show ?thesis
            by (intro Stmt[of b d1 line isEnd d2 line2 isEnd2 hasEmpty cur2 rest child])
               (auto simp: firstToken_def)
        qed
      qed
    qed
  qed
qed

lemma parseLoop_induct [consumes 0, case_names Nil Stop Cons]:
  assumes nil: "\<And>d cur root ws. P d cur root ws []"
    and stop: "\<And>d cur root ws scans. P d cur root ws (None # scans)"
    and cons: "\<And>d cur root ws tok scans.
      (\<And>d1. processLine d (firstToken cur tok) True = ([], d1, None)
         \<Longrightarrow> P d1 (cur + 1) root ws scans) \<Longrightarrow>
      (\<And>b d1 line isEnd d2 line2 isEnd2 hasEmpty cur2 rest child.
         processLine d (firstToken cur tok) True = (b, d1, None) \<Longrightarrow>
         continuateLine b d1 = (line, isEnd) \<Longrightarrow> \<not> (isEnd \<and> line = []) \<Longrightarrow>
         continuationLoop d1 line isEnd False (cur + 1) scans
           = Inr (d2, line2, isEnd2, hasEmpty, cur2, rest) \<Longrightarrow>
         newNodeFromLine env line2 d2 = Inr child \<Longrightarrow>
         P d2 cur2 (AddChild root child (cur + 1) cur2)
           (if hasEmpty then ws @ [emptyContinuationWarning line2] else ws) rest) \<Longrightarrow>
      P d cur root ws (Some tok # scans)"
  shows "P d cur root ws scans"
proof (induction scans arbitrary: d cur root ws rule: length_induct)
  case (1 scans)
  show ?case
  proof (cases scans)
    case Nil
    then show ?thesis by (simp add: nil)
  next
    case (Cons x scans')
    show ?thesis
    proof (cases x)
      case None
      with Cons show ?thesis by (simp add: stop)
    next
      case (Some tok)
      show ?thesis
        unfolding Cons Some
      proof (rule cons)
        fix d1
        show "P d1 (cur + 1) root ws scans'" using 1 Cons by simp
      next
        fix b d1 line isEnd d2 line2 isEnd2 hasEmpty cur2 rest child
        assume "continuationLoop d1 line isEnd False (cur + 1) scans'
             = Inr (d2, line2, isEnd2, hasEmpty, cur2, rest)"
        then have "length rest \<le> length scans'" by (rule continuationLoop_length)
        then show "P d2 cur2 (AddChild root child (cur + 1) cur2)
             (if hasEmpty then ws @ [emptyContinuationWarning line2] else ws) rest"
          using 1 Cons by simp
      qed
    qed
  qed
qed

lemma parseLoop_error:
  "parseLoop env d cur root ws scans = Inl err \<Longrightarrow>
   err = InvalidEscape \<or> err = DuplicateEscape \<or> (\<exists>m. err = ArgumentError m)"
proof (induction d cur root ws scans rule: parseLoop_induct[where env = env])
  case (Nil d cur root ws)
  then show ?case by simp
next
  case (Stop d cur root ws scans)
  then show ?case by simp
next
  case (Cons d cur root ws tok scans)
  show ?case
  proof (cases rule: parseLoop_Cons_cases[of d cur tok env root ws scans])
    case (ErrLine b d1 e)
    with Cons.prems show ?thesis by (auto dest: processLine_error)
  next
    case (Skip d1)
    with Cons.prems Cons.IH(1) show ?thesis by simp
  next
    case (ErrCont b d1 line isEnd e)
    with Cons.prems show ?thesis by (auto dest: continuationLoop_error)
  next
    case (ErrNode b d1 line isEnd d2 line2 isEnd2 hasEmpty cur2 rest e)
    with Cons.prems show ?thesis by (auto dest: newNodeFromLine_error)
  next
    case (Stmt b d1 line isEnd d2 line2 isEnd2 hasEmpty cur2 rest child)
    with Cons.prems Cons.IH(2) show ?thesis by simp
  qed
qed

subsection \<open>Errors and results\<close>

text \<open>
  C5 (as amended). When \<open>Parse\<close> returns an error of the directive handling, of the
  instruction dispatcher or of the check for instructions, it returns no result. When
  the error is the scanner's (the line-too-long failure or another read failure),
  \<open>Parse\<close> returns a result with it. \<open>scans\<close> is what the scanner's calls of \<open>Scan\<close>
  return and \<open>serr\<close> is the error it reports.
\<close>

theorem ParseLines_error_result:
  assumes "ParseLines env scans serr = (res, Some e)"
  shows "(res = None) = (\<forall>n m. e \<noteq> LineTooLong n \<and> e \<noteq> ReadError m)"
proof (cases "parseLoop env NewDefaultDirective 0 rootInit [] scans")
  case (Inl err)
  with assms have "res = None" "e = err" by (simp_all add: ParseLines_def)
  with parseLoop_error[OF Inl] show ?thesis by auto
next
  case (Inr st)
  obtain d cur root ws where st: "st = (d, cur, root, ws)" by (cases st) auto
  show ?thesis
  proof (cases "StartLine root < 0")
    case True
    with assms Inr st show ?thesis by (simp add: ParseLines_def Let_def)
  next
    case False
    with assms Inr st have "res \<noteq> None" "handleScannerError serr = Some e"
      by (auto simp: ParseLines_def Let_def)
    then show ?thesis
      by (auto simp: handleScannerError_def split: option.splits scanError.splits)
  qed
qed

theorem ParseLines_error_result_witness:
  "ParseLines exampleEnv [Some ''# escape=x''] None = (None, Some InvalidEscape) \<and>
   ((None :: Result option) = None) =
     (\<forall>n m. InvalidEscape \<noteq> LineTooLong n \<and> InvalidEscape \<noteq> ReadError m)"
proof -
  have h: "ParseLines exampleEnv [Some ''# escape=x''] None = (None, Some InvalidEscape)"
    by (simp add: parse_defs)
  from ParseLines_error_result[OF h] h show ?thesis by simp
qed

subsection \<open>Reading lines\<close>

lemma takeWhile_line: "newline \<notin> set l \<Longrightarrow> takeWhile (\<lambda>c. c \<noteq> newline) (l @ newline # rest) = l"
  by (induction l) auto

lemma dropWhile_line: "newline \<notin> set l \<Longrightarrow> dropWhile (\<lambda>c. c \<noteq> newline) (l @ newline # rest) = newline # rest"
  by (induction l) auto


lemma scanLines_line:
  assumes "newline \<notin> set l" "length l < m"
  shows "scanLines m (l @ newline # rest)
       = (Some (dropCR l) # fst (scanLines m rest), snd (scanLines m rest))"
  using assms
  by (subst scanLines.simps) (simp add: takeWhile_line dropWhile_line split: prod.splits)

lemma scanLines_long:
  assumes "newline \<notin> set l" "m \<le> length l" "l \<noteq> []" "post = [] \<or> hd post = newline"
  shows "scanLines m (l @ post) = ([None, Some (dropCR (take m l))], Some ErrTooLong)"
proof -
  have "takeWhile (\<lambda>c. c \<noteq> newline) (l @ post) = l"
  proof (cases post)
    case Nil
    with assms(1) show ?thesis by (auto simp: takeWhile_eq_all_conv)
  next
    case (Cons p ps)
    with assms(4) have "post = newline # ps" by simp
    with assms(1) show ?thesis by (simp add: takeWhile_line)
  qed
  with assms(2,3) show ?thesis by (subst scanLines.simps) simp
qed



lemma set_replicate_a: "newline \<notin> set (replicate n (CHR ''a''))"
  by (simp add: newline_def)

lemma buffered_a: "dropCR (take MaxScanTokenSize (replicate 65536 (CHR ''a''))) = replicate 65536 (CHR ''a'')"
  by (simp add: dropCR_def MaxScanTokenSize_def)

lemma scan_long_a:
  "scanLines MaxScanTokenSize (replicate 65536 (CHR ''a''))
     = ([None, Some (replicate 65536 (CHR ''a''))], Some ErrTooLong)"
proof -
  have a: "MaxScanTokenSize \<le> length (replicate 65536 (CHR ''a''))"
    by (simp add: MaxScanTokenSize_def)
  have b: "replicate 65536 (CHR ''a'') \<noteq> []" by simp
  have "scanLines MaxScanTokenSize (replicate 65536 (CHR ''a'') @ [])
     = ([None, Some (dropCR (take MaxScanTokenSize (replicate 65536 (CHR ''a''))))],
        Some ErrTooLong)"
    by (rule scanLines_long[OF set_replicate_a a b]) simp
  then show ?thesis unfolding buffered_a by simp
qed



lemma scan_from_long_a:
  "scanLines MaxScanTokenSize (''FROM a'' @ newline # replicate 65536 (CHR ''a''))
     = ([Some ''FROM a'', None, Some (replicate 65536 (CHR ''a''))], Some ErrTooLong)"
proof -
  have a: "newline \<notin> set ''FROM a''" by (simp add: newline_def)
  have b: "length ''FROM a'' < MaxScanTokenSize" by (simp add: MaxScanTokenSize_def)
  show ?thesis
    using scanLines_line[OF a b, of "replicate 65536 (CHR ''a'')"]
    by (simp add: scan_long_a dropCR_def)
qed

text \<open>
  An instruction followed by an oversized line: \<open>Parse\<close> returns the line-too-long
  error and, with it, the tree that holds the instruction.
\<close>

theorem result_with_error_counterexample:
  "Parse exampleEnv (''FROM a'' @ newline # replicate 65536 (CHR ''a'')) =
     (Some \<lparr>AST = Node [] None [Node ''from'' None [] Map.empty ''FROM a'' [] 1 1]
                    Map.empty [] [] 1 1,
            EscapeToken = backslash, Warnings = []\<rparr>,
      Some (LineTooLong 65535))"
  unfolding Parse_def scan_from_long_a
  by (simp add: parse_defs MaxScanTokenSize_def)

subsection \<open>The directive window\<close>

lemma processLine_directive:
  assumes "\<not> processingComplete d" "directiveLine tok = Some s"
  shows "processLine d tok True =
     ([], if escapeSeen d then (d, Some DuplicateEscape) else setEscapeToken (d\<lparr>escapeSeen := True\<rparr>) s)"
proof -
  have "tokenComment (trimWhitespace tok)"
    using assms(2) unfolding directiveLine_def by (rule directive_is_comment)
  then show ?thesis
    using assms by (simp add: processLine_def possibleParserDirective_def directiveLine_def
        trimComments_def split: prod.splits)
qed

lemma processLine_no_directive:
  assumes "\<not> processingComplete d" "directiveLine tok = None"
  shows "processLine d tok True = (trimComments (trimWhitespace tok), d\<lparr>processingComplete := True\<rparr>, None)"
  using assms by (simp add: processLine_def possibleParserDirective_def directiveLine_def)

lemma parseLoop_blank_closed:
  assumes "\<forall>t\<in>set (leadingLines scans). blankOrComment t" "0 < cur" "processingComplete d"
  shows "parseLoop env d cur root ws scans
       = Inr (d, cur + int (length (leadingLines scans)), root, ws)"
  using assms
proof (induction scans arbitrary: cur rule: leadingLines.induct)
  case 1
  then show ?case by simp
next
  case (2 scans)
  then show ?case by simp
next
  case (3 tok scans)
  have "processLine d tok True = ([], d, None)"
    using "3.prems" by (simp add: processLine_complete blankOrComment_def)
  moreover have "parseLoop env d (cur + 1) root ws scans
               = Inr (d, cur + 1 + int (length (leadingLines scans)), root, ws)"
    using "3.prems" "3.IH"[of "cur + 1"] by simp
  ultimately show ?case using "3.prems"(2) by (simp add: continuateLine_Nil)
qed

text \<open>The same with the window closing at the first line.\<close>

lemma parseLoop_blank_closing:
  assumes "\<forall>t\<in>set (tok # leadingLines scans). blankOrComment t" "0 \<le> cur"
    "directiveLine tok = None" "firstToken cur tok' = tok"
  shows "\<exists>d' cur'. parseLoop env d cur root ws (Some tok' # scans) = Inr (d', cur', root, ws)"
proof (cases "processingComplete d")
  case True
  have "processLine d tok True = ([], d, None)"
    using assms(1) True by (simp add: processLine_complete blankOrComment_def)
  moreover have "parseLoop env d (cur + 1) root ws scans
               = Inr (d, cur + 1 + int (length (leadingLines scans)), root, ws)"
    using assms(1,2) True by (intro parseLoop_blank_closed) simp_all
  ultimately show ?thesis using assms(4) by (simp add: continuateLine_Nil firstToken_def)
next
  case False
  let ?d = "d\<lparr>processingComplete := True\<rparr>"
  have "processLine d tok True = ([], ?d, None)"
    using assms(1,3) False by (simp add: processLine_no_directive blankOrComment_def)
  moreover have "parseLoop env ?d (cur + 1) root ws scans
               = Inr (?d, cur + 1 + int (length (leadingLines scans)), root, ws)"
    using assms(1,2) by (intro parseLoop_blank_closed) simp_all
  ultimately show ?thesis using assms(4) by (simp add: continuateLine_Nil firstToken_def)
qed

lemma ParseLines_no_root:
  assumes "parseLoop env NewDefaultDirective 0 rootInit [] scans = Inr (d, cur, rootInit, ws)"
  shows "ParseLines env scans serr = (None, Some NoInstructions)"
  using assms by (simp add: ParseLines_def Let_def rootInit_def)

lemma default_open: "\<not> processingComplete NewDefaultDirective" "\<not> escapeSeen NewDefaultDirective"
  by (simp_all add: NewDefaultDirective_def setEscapeToken_def DefaultEscapeToken_def)

lemma setEscapeToken_valid:
  "c = backtick \<or> c = backslash \<Longrightarrow>
   setEscapeToken d [c] = (d\<lparr>escapeToken := c, lineEscapeRegex := c\<rparr>, None)"
  by (auto simp: setEscapeToken_def)

lemma setEscapeToken_invalid:
  "s \<noteq> [backtick] \<and> s \<noteq> [backslash] \<Longrightarrow> setEscapeToken d s = (d, Some InvalidEscape)"
  by (simp add: setEscapeToken_def)


lemma ParseLines_duplicate:
  assumes "directiveLine (TrimPrefix l1 utf8bom) = Some [c]" "c = backtick \<or> c = backslash"
    and "directiveLine l2 = Some s2"
  shows "ParseLines env (Some l1 # Some l2 # rest) serr = (None, Some DuplicateEscape)"
proof -
  let ?d0 = "NewDefaultDirective"
  let ?d1 = "?d0\<lparr>escapeSeen := True, escapeToken := c, lineEscapeRegex := c\<rparr>"
  have p1: "processLine ?d0 (TrimPrefix l1 utf8bom) True = ([], ?d1, None)"
    using processLine_directive[OF default_open(1) assms(1)] default_open(2)
      setEscapeToken_valid[OF assms(2)] by simp
  have open1: "\<not> processingComplete ?d1" using default_open(1) by simp
  have p2: "processLine ?d1 l2 True = ([], ?d1, Some DuplicateEscape)"
    using processLine_directive[OF open1 assms(3)] by simp
  have "parseLoop env ?d0 0 rootInit [] (Some l1 # Some l2 # rest) = Inl DuplicateEscape"
    using p1 p2 by (simp add: continuateLine_Nil)
  then show ?thesis by (simp add: ParseLines_def)
qed





lemma ParseLines_no_instructions:
  assumes "\<forall>t\<in>set (stripBOM (leadingLines scans)). blankOrComment t"
  shows "ParseLines env scans serr =
     (None, Some (case stripBOM (leadingLines scans) of
                    [] \<Rightarrow> NoInstructions
                  | t1 # r \<Rightarrow>
                     (case directiveLine t1 of
                        None \<Rightarrow> NoInstructions
                      | Some s \<Rightarrow>
                          if s \<noteq> [backtick] \<and> s \<noteq> [backslash] then InvalidEscape
                          else (case r of
                                  [] \<Rightarrow> NoInstructions
                                | t2 # r2 \<Rightarrow>
                                   (case directiveLine t2 of
                                      None \<Rightarrow> NoInstructions
                                    | Some s2 \<Rightarrow> DuplicateEscape)))))"
proof (cases scans rule: leadingLines.cases)
  case 1
  then show ?thesis by (simp add: stripBOM_def ParseLines_def rootInit_def)
next
  case (2 r)
  then show ?thesis by (simp add: stripBOM_def ParseLines_def rootInit_def)
next
  case (3 l1 r)
  let ?t1 = "TrimPrefix l1 utf8bom"
  let ?d0 = "NewDefaultDirective"
  have sb: "stripBOM (leadingLines scans) = ?t1 # leadingLines r"
    using 3 by (simp add: stripBOM_def)
  have b1: "blankOrComment ?t1" and br: "\<forall>t\<in>set (leadingLines r). blankOrComment t"
    using assms sb by simp_all
  show ?thesis
  proof (cases "directiveLine ?t1")
    case None
    have "\<forall>t\<in>set (?t1 # leadingLines r). blankOrComment t" using b1 br by simp
    from parseLoop_blank_closing[OF this _ None, of 0 l1 env ?d0 rootInit "[]"]
    obtain d' cur' where
      "parseLoop env ?d0 0 rootInit [] (Some l1 # r) = Inr (d', cur', rootInit, [])"
      by (auto simp: firstToken_def)
    then show ?thesis using 3 sb None by (simp add: ParseLines_no_root)
  next
    case (Some s)
    show ?thesis
    proof (cases "s \<noteq> [backtick] \<and> s \<noteq> [backslash]")
      case True
      have "processLine ?d0 ?t1 True = ([], ?d0\<lparr>escapeSeen := True\<rparr>, Some InvalidEscape)"
        using processLine_directive[OF default_open(1) Some] default_open(2)
          setEscapeToken_invalid[OF True] by simp
      then have "parseLoop env ?d0 0 rootInit [] (Some l1 # r) = Inl InvalidEscape" by simp
      then show ?thesis using 3 sb Some True by (simp add: ParseLines_def)
    next
      case False
      then obtain c where c: "s = [c]" "c = backtick \<or> c = backslash" by auto
      let ?d1 = "?d0\<lparr>escapeSeen := True, escapeToken := c, lineEscapeRegex := c\<rparr>"
      have p1: "processLine ?d0 ?t1 True = ([], ?d1, None)"
        using processLine_directive[OF default_open(1) Some] default_open(2)
          setEscapeToken_valid[OF c(2)] c(1) by simp
      have open1: "\<not> processingComplete ?d1" using default_open(1) by simp
      have step: "parseLoop env ?d0 0 rootInit [] (Some l1 # r) = parseLoop env ?d1 1 rootInit [] r"
        using p1 by (simp add: continuateLine_Nil)
      show ?thesis
      proof (cases r rule: leadingLines.cases)
        case 1
        with step have "parseLoop env ?d0 0 rootInit [] (Some l1 # r) = Inr (?d1, 1, rootInit, [])"
          by simp
        then show ?thesis using 3 sb Some False 1 by (simp add: ParseLines_no_root)
      next
        case (2 r2)
        with step have "parseLoop env ?d0 0 rootInit [] (Some l1 # r) = Inr (?d1, 1, rootInit, [])"
          by simp
        then show ?thesis using 3 sb Some False 2 by (simp add: ParseLines_no_root)
      next
        case r: (3 l2 r2)
        show ?thesis
        proof (cases "directiveLine l2")
          case None
          have "\<forall>t\<in>set (l2 # leadingLines r2). blankOrComment t" using br r by simp
          from parseLoop_blank_closing[OF this _ None, of 1 l2 env ?d1 rootInit "[]"]
          obtain d' cur' where
            "parseLoop env ?d1 1 rootInit [] (Some l2 # r2) = Inr (d', cur', rootInit, [])"
            by (auto simp: firstToken_def)
          with step r
          have "parseLoop env ?d0 0 rootInit [] (Some l1 # r) = Inr (d', cur', rootInit, [])"
            by simp
          then show ?thesis using 3 sb Some False r None by (simp add: ParseLines_no_root)
        next
          case s2: (Some s2)
          have "ParseLines env (Some l1 # Some l2 # r2) serr = (None, Some DuplicateEscape)"
            using ParseLines_duplicate[OF _ c(2) s2] Some c(1) by simp
          then show ?thesis using 3 sb Some False r s2 by simp
        qed
      qed
    qed
  qed
qed

text \<open>
  C7 (as amended). On an input whose physical lines are all blank lines or comment
  lines (the empty input among them), \<open>Parse\<close> returns no tree, whatever the scanner
  stopped with. The error is that of a file with no instructions, except when the
  directive window raises an error first: the invalid-escape error when the first line
  is an escape directive that names neither backtick nor backslash, the
  duplicate-directive error when the first two lines are escape directives. The
  physical lines are those the scanner returns before \<open>Scan\<close> first returns false: all
  the lines of an input within the line-length limit.
\<close>

theorem Parse_no_instructions:
  assumes "scanLines MaxScanTokenSize rwc = (scans, serr)"
    and "\<forall>t\<in>set (stripBOM (leadingLines scans)). blankOrComment t"
  shows "Parse env rwc =
     (None, Some (case stripBOM (leadingLines scans) of
                    [] \<Rightarrow> NoInstructions
                  | t1 # r \<Rightarrow>
                     (case directiveLine t1 of
                        None \<Rightarrow> NoInstructions
                      | Some s \<Rightarrow>
                          if s \<noteq> [backtick] \<and> s \<noteq> [backslash] then InvalidEscape
                          else (case r of
                                  [] \<Rightarrow> NoInstructions
                                | t2 # r2 \<Rightarrow>
                                   (case directiveLine t2 of
                                      None \<Rightarrow> NoInstructions
                                    | Some s2 \<Rightarrow> DuplicateEscape)))))"
  using ParseLines_no_instructions[OF assms(2), of env serr] assms(1) by (simp add: Parse_def)

theorem Parse_no_instructions_witness:
  "Parse exampleEnv (''# a comment'' @ [newline, newline] @ ''  # escape='' @ [backtick, newline])
     = (None, Some NoInstructions)"
proof -
  have s: "scanLines MaxScanTokenSize
             (''# a comment'' @ [newline, newline] @ ''  # escape='' @ [backtick, newline])
           = ([Some ''# a comment'', Some [], Some (''  # escape='' @ [backtick])], None)"
    by (simp add: scanLines.simps MaxScanTokenSize_def newline_def dropCR_def backtick_def)
  have b: "\<forall>t\<in>set (stripBOM (leadingLines
              [Some ''# a comment'', Some [], Some (''  # escape='' @ [backtick])])).
             blankOrComment t"
    by (simp add: stripBOM_def blankOrComment_def parse_defs)
  have d: "directiveLine ''# a comment'' = None"
    by (simp add: directiveLine_def parse_defs)
  from Parse_no_instructions[OF s b, of exampleEnv] d show ?thesis
    by (simp add: stripBOM_def TrimPrefix_def utf8bom_def)
qed

text \<open>
  An input that holds only a directive line naming \<open>x\<close> has no instruction, and the
  error is the invalid-escape error.
\<close>

theorem no_instructions_counterexample:
  "list_all blankOrComment (stripBOM [''# escape=x'']) \<and>
   Parse exampleEnv ''# escape=x'' = (None, Some InvalidEscape)"
  by (simp add: stripBOM_def blankOrComment_def parse_defs scanLines.simps MaxScanTokenSize_def
      dropCR_def)

subsection \<open>Line spans\<close>

lemma lines_sel [simp]:
  "StartLine (lines c s e) = s" "endLine (lines c s e) = e" "Original (lines c s e) = Original c"
  "Next (lines c s e) = Next c" "Children (lines c s e) = Children c" "Value (lines c s e) = Value c"
  by (cases c; simp)+

lemma AddChild_sel [simp]:
  "Children (AddChild root child s e) = Children root @ [lines child s e]"
  "StartLine (AddChild root child s e) = (if StartLine root < 0 then s else StartLine root)"
  "endLine (AddChild root child s e) = e"
  "Next (AddChild root child s e) = Next root"
  by (cases root; simp)+

lemma linesOrdered_alt:
  "linesOrdered n \<longleftrightarrow>
     StartLine n \<le> endLine n \<and> (\<forall>x\<in>set_option (Next n). linesOrdered x) \<and>
     (\<forall>c\<in>set (Children n). linesOrdered c)"
  by (cases n) simp

lemma scannedLines_append [simp]:
  "scannedLines (xs @ ys) = scannedLines xs @ scannedLines ys"
  by (induction xs rule: scannedLines.induct) simp_all

lemma scannedLines_map_Some [simp]: "scannedLines (map Some toks) = toks"
  by (induction toks) simp_all

lemma leadingLines_map_Some [simp]: "leadingLines (map Some toks @ None # rest) = toks"
  "leadingLines (map Some toks) = toks"
  by (induction toks) simp_all

text \<open>
  What the inner loop consumes: the tokens \<open>toks\<close>, and after them the \<open>Scan\<close> that
  returned false if that is what stopped it. The loop stops with the statement
  incomplete only when \<open>Scan\<close> has returned false.
\<close>

lemma continuationLoop_consumed:
  assumes "continuationLoop d line e h cur scans = Inr (d', line', e', h', cur', rest)"
  shows "\<exists>toks. (scans = map Some toks @ rest \<and> (\<not> e' \<longrightarrow> rest = []) \<or>
                  scans = map Some toks @ None # rest \<and> \<not> e') \<and>
           cur' = cur + int (length toks) \<and> (e \<longrightarrow> toks = []) \<and>
           (h' \<longleftrightarrow> h \<or> (\<exists>t\<in>set toks. emptyContinuation t))"
  using assms
proof (induction scans arbitrary: d line e h cur)
  case Nil
  then show ?case by auto
next
  case (Cons a scans)
  show ?case
  proof (cases e)
    case True
    with Cons.prems have "a # scans = map Some [] @ rest" "e'" "cur' = cur" "h' = h"
      by (cases a; simp)+
    then show ?thesis using True by (intro exI[of _ "[]"]) simp
  next
    case False
    show ?thesis
    proof (cases a)
      case None
      with Cons.prems False have "a # scans = map Some [] @ None # rest" "\<not> e'" "cur' = cur" "h' = h"
        by simp_all
      then show ?thesis using False by (intro exI[of _ "[]"]) simp
    next
      case (Some tok)
      obtain b d1 er where pl: "processLine d tok False = (b, d1, er)"
        by (cases "processLine d tok False") auto
      have b: "b = trimComments tok" using processLine_fst[of d tok False] pl by simp
      obtain l2 e2 where cl: "continuateLine (line @ b) d1 = (l2, e2)"
        by (cases "continuateLine (line @ b) d1") auto
      from Cons.prems False Some pl have er: "er = None" by (cases er) auto
      consider (skipped) "isComment tok"
        | (blank) "\<not> isComment tok" "isEmptyContinuationLine b"
        | (content) "\<not> isComment tok" "\<not> isEmptyContinuationLine b"
        by blast
      then show ?thesis
      proof cases
        case skipped
        with Cons.prems False Some pl er
        have "continuationLoop d1 line e h (cur + 1) scans = Inr (d', line', e', h', cur', rest)"
          by simp
        from Cons.IH[OF this] obtain toks where c:
          "scans = map Some toks @ rest \<and> (\<not> e' \<longrightarrow> rest = []) \<or>
           scans = map Some toks @ None # rest \<and> \<not> e'"
          "cur' = cur + 1 + int (length toks)"
          "h' \<longleftrightarrow> h \<or> (\<exists>t\<in>set toks. emptyContinuation t)" by auto
        show ?thesis
          by (rule exI[of _ "tok # toks"])
             (use c skipped False Some in \<open>auto simp: emptyContinuation_def\<close>)
      next
        case blank
        with Cons.prems False Some pl er
        have "continuationLoop d1 line e True (cur + 1) scans = Inr (d', line', e', h', cur', rest)"
          by simp
        from Cons.IH[OF this] obtain toks where c:
          "scans = map Some toks @ rest \<and> (\<not> e' \<longrightarrow> rest = []) \<or>
           scans = map Some toks @ None # rest \<and> \<not> e'"
          "cur' = cur + 1 + int (length toks)" "h'" by auto
        show ?thesis
          by (rule exI[of _ "tok # toks"])
             (use c blank b False Some in \<open>auto simp: emptyContinuation_def\<close>)
      next
        case content
        with Cons.prems False Some pl er cl
        have "continuationLoop d1 l2 e2 h (cur + 1) scans = Inr (d', line', e', h', cur', rest)"
          by simp
        from Cons.IH[OF this] obtain toks where c:
          "scans = map Some toks @ rest \<and> (\<not> e' \<longrightarrow> rest = []) \<or>
           scans = map Some toks @ None # rest \<and> \<not> e'"
          "cur' = cur + 1 + int (length toks)"
          "h' \<longleftrightarrow> h \<or> (\<exists>t\<in>set toks. emptyContinuation t)" by auto
        show ?thesis
          by (rule exI[of _ "tok # toks"])
             (use c content b False Some in \<open>auto simp: emptyContinuation_def\<close>)
      qed
    qed
  qed
qed

text \<open>The same with the scans consumed as one list.\<close>

lemma continuationLoop_scans:
  assumes "continuationLoop d line e h cur scans = Inr (d', line', e', h', cur', rest)"
  shows "\<exists>consumed. scans = consumed @ rest \<and>
           cur' = cur + int (length (scannedLines consumed)) \<and>
           (h' \<longleftrightarrow> h \<or> (\<exists>t\<in>set (scannedLines consumed). emptyContinuation t))"
proof -
  from continuationLoop_consumed[OF assms] obtain toks where c:
    "scans = map Some toks @ rest \<or> scans = map Some toks @ None # rest"
    "cur' = cur + int (length toks)"
    "h' \<longleftrightarrow> h \<or> (\<exists>t\<in>set toks. emptyContinuation t)" by auto
  from c(1) show ?thesis
  proof
    assume "scans = map Some toks @ rest"
    then show ?thesis using c(2,3) by (intro exI[of _ "map Some toks"]) simp
  next
    assume "scans = map Some toks @ None # rest"
    then show ?thesis using c(2,3) by (intro exI[of _ "map Some toks @ [None]"]) simp
  qed
qed

lemma continuationLoop_cur:
  "continuationLoop d line e h cur scans = Inr (d', line', e', h', cur', rest) \<Longrightarrow> cur \<le> cur'"
  by (drule continuationLoop_consumed) auto

lemma spansOrdered_mono: "spansOrdered cur root \<Longrightarrow> cur \<le> cur' \<Longrightarrow> spansOrdered cur' root"
  by (fastforce simp: spansOrdered_def)

lemma spansOrdered_AddChild:
  assumes "spansOrdered cur root" "cur + 1 \<le> cur2"
  shows "spansOrdered cur2 (AddChild root child (cur + 1) cur2)"
proof -
  let ?ch = "Children root"
  from assms(1) have a: "0 \<le> cur" "?ch = [] \<longrightarrow> StartLine root < 0"
    "?ch \<noteq> [] \<longrightarrow> StartLine root = StartLine (hd ?ch) \<and> endLine root = endLine (last ?ch)"
    "\<forall>c\<in>set ?ch. 1 \<le> StartLine c \<and> StartLine c \<le> endLine c \<and> endLine c \<le> cur"
    "sorted (map StartLine ?ch)" "sorted (map endLine ?ch)"
    by (auto simp: spansOrdered_def)
  have pos: "?ch \<noteq> [] \<Longrightarrow> \<not> StartLine root < 0"
  proof -
    assume ne: "?ch \<noteq> []"
    then have "hd ?ch \<in> set ?ch" by simp
    with a(4) have "1 \<le> StartLine (hd ?ch)" by blast
    with a(3) ne show ?thesis by simp
  qed
  have s1: "sorted (map StartLine ?ch @ [cur + 1])"
    using a(4,5) by (fastforce simp: sorted_append)
  have s2: "sorted (map endLine ?ch @ [cur2])"
    using a(4,6) assms(2) by (fastforce simp: sorted_append)
  show ?thesis
    unfolding spansOrdered_def
    using a assms(2) pos s1 s2 by (cases "?ch = []") (auto simp: hd_append)
qed

lemma parseLoop_spans:
  assumes "spansOrdered cur root" "parseLoop env d cur root ws scans = Inr (d', cur', root', ws')"
  shows "spansOrdered cur' root'"
  using assms
proof (induction d cur root ws scans rule: parseLoop_induct[where env = env])
  case (Nil d cur root ws)
  then show ?case by simp
next
  case (Stop d cur root ws scans)
  then show ?case by simp
next
  case (Cons d cur root ws tok scans)
  show ?case
  proof (cases rule: parseLoop_Cons_cases[of d cur tok env root ws scans])
    case (ErrLine b d1 e)
    with Cons.prems show ?thesis by simp
  next
    case (Skip d1)
    have "spansOrdered (cur + 1) root" using Cons.prems(1) by (rule spansOrdered_mono) simp
    with Cons.IH(1)[OF Skip(1)] Cons.prems(2) Skip(2) show ?thesis by simp
  next
    case (ErrCont b d1 line isEnd e)
    with Cons.prems show ?thesis by simp
  next
    case (ErrNode b d1 line isEnd d2 line2 isEnd2 hasEmpty cur2 rest e)
    with Cons.prems show ?thesis by simp
  next
    case (Stmt b d1 line isEnd d2 line2 isEnd2 hasEmpty cur2 rest child)
    have "cur + 1 \<le> cur2" using Stmt(4) by (rule continuationLoop_cur)
    with Cons.prems(1) have "spansOrdered cur2 (AddChild root child (cur + 1) cur2)"
      by (rule spansOrdered_AddChild)
    with Cons.IH(2)[OF Stmt(1,2,3,4,5)] Cons.prems(2) Stmt(6) show ?thesis by simp
  qed
qed

lemma sorted_hd_Min_aux: "sorted xs \<Longrightarrow> xs \<noteq> [] \<Longrightarrow> Min (set xs) = hd (xs :: int list)"
  by (cases xs) (auto intro!: Min_eqI)

lemma sorted_last_Max_aux: "sorted xs \<Longrightarrow> xs \<noteq> [] \<Longrightarrow> Max (set xs) = last (xs :: int list)"
  by (induction xs rule: rev_induct) (auto intro!: Max_eqI simp: sorted_append)

lemma newNodeFromLine_ordered:
  assumes "parsersOrdered env" "newNodeFromLine env line d = Inr child"
  shows "linesOrdered child"
proof -
  from assms(2) obtain cmd flags args nxt attrs
    where sc: "splitCommand env line = Inr (cmd, flags, args)"
      and fn: "(case dispatch env cmd of None \<Rightarrow> parseIgnore env | Some f \<Rightarrow> f) args d = Inr (nxt, attrs)"
      and ch: "child = Node cmd nxt [] attrs line flags 0 0"
    by (auto simp: newNodeFromLine_def Let_def split: sum.splits prod.splits)
  let ?f = "case dispatch env cmd of None \<Rightarrow> parseIgnore env | Some f \<Rightarrow> f"
  have "?f = parseIgnore env \<or> ?f \<in> ran (dispatch env)"
    by (auto simp: ran_def split: option.splits)
  with assms(1) fn have "\<forall>n\<in>set_option nxt. linesOrdered n"
    unfolding parsersOrdered_def by (cases nxt) auto
  with ch show ?thesis by simp
qed

lemma newNodeFromLine_Original:
  "newNodeFromLine env line d = Inr child \<Longrightarrow> Original child = line"
  by (auto simp: newNodeFromLine_def Let_def split: sum.splits prod.splits)

lemma linesOrdered_lines: "linesOrdered c \<Longrightarrow> s \<le> e \<Longrightarrow> linesOrdered (lines c s e)"
  by (cases c) simp

lemma parseLoop_children_ordered:
  assumes "parsersOrdered env" "\<forall>c\<in>set (Children root). linesOrdered c"
    "parseLoop env d cur root ws scans = Inr (d', cur', root', ws')"
  shows "(\<forall>c\<in>set (Children root'). linesOrdered c) \<and> Next root' = Next root"
  using assms(2,3)
proof (induction d cur root ws scans rule: parseLoop_induct[where env = env])
  case (Nil d cur root ws)
  then show ?case by simp
next
  case (Stop d cur root ws scans)
  then show ?case by simp
next
  case (Cons d cur root ws tok scans)
  show ?case
  proof (cases rule: parseLoop_Cons_cases[of d cur tok env root ws scans])
    case (ErrLine b d1 e)
    with Cons.prems show ?thesis by simp
  next
    case (Skip d1)
    with Cons.IH(1)[OF Skip(1)] Cons.prems show ?thesis by simp
  next
    case (ErrCont b d1 line isEnd e)
    with Cons.prems show ?thesis by simp
  next
    case (ErrNode b d1 line isEnd d2 line2 isEnd2 hasEmpty cur2 rest e)
    with Cons.prems show ?thesis by simp
  next
    case (Stmt b d1 line isEnd d2 line2 isEnd2 hasEmpty cur2 rest child)
    have "cur + 1 \<le> cur2" using Stmt(4) by (rule continuationLoop_cur)
    moreover have "linesOrdered child" using assms(1) Stmt(5) by (rule newNodeFromLine_ordered)
    ultimately have "linesOrdered (lines child (cur + 1) cur2)" by (intro linesOrdered_lines)
    with Cons.prems(1)
    have "\<forall>c\<in>set (Children (AddChild root child (cur + 1) cur2)). linesOrdered c" by simp
    from Cons.IH(2)[OF Stmt(1,2,3,4,5) this] Cons.prems(2) Stmt(6) show ?thesis by simp
  qed
qed

lemma ParseLines_Some:
  assumes "ParseLines env scans serr = (Some r, e)"
  obtains d cur ws where
    "parseLoop env NewDefaultDirective 0 rootInit [] scans = Inr (d, cur, AST r, ws)"
    "0 \<le> StartLine (AST r)" "EscapeToken r = escapeToken d"
    "Warnings r = (if ws = [] then [] else ws @ [deprecationWarning])"
    "e = handleScannerError serr"
proof (cases "parseLoop env NewDefaultDirective 0 rootInit [] scans")
  case (Inl err)
  with assms show ?thesis by (simp add: ParseLines_def)
next
  case (Inr st)
  obtain d cur root ws where st: "st = (d, cur, root, ws)" by (cases st) auto
  with assms Inr have "\<not> StartLine root < 0"
    by (auto simp: ParseLines_def Let_def split: if_splits)
  with assms Inr st have "r = \<lparr>AST = root, EscapeToken = escapeToken d,
      Warnings = (if ws = [] then [] else ws @ [deprecationWarning])\<rparr>" "e = handleScannerError serr"
    by (auto simp: ParseLines_def Let_def)
  with that[of d cur ws] Inr st \<open>\<not> StartLine root < 0\<close> show ?thesis by simp
qed

lemma spansOrdered_init: "spansOrdered 0 rootInit"
  by (simp add: spansOrdered_def rootInit_def)

lemma ParseLines_spans:
  assumes "parsersOrdered env" "ParseLines env scans serr = (Some r, e)"
  shows "linesOrdered (AST r) \<and> Children (AST r) \<noteq> [] \<and>
     StartLine (AST r) = Min (StartLine ` set (Children (AST r))) \<and>
     endLine (AST r) = Max (endLine ` set (Children (AST r)))"
proof -
  from assms(2) obtain d cur ws where
    pl: "parseLoop env NewDefaultDirective 0 rootInit [] scans = Inr (d, cur, AST r, ws)"
    and st: "0 \<le> StartLine (AST r)"
    by (rule ParseLines_Some)
  let ?ch = "Children (AST r)"
  have sp: "spansOrdered cur (AST r)"
    using spansOrdered_init pl by (rule parseLoop_spans)
  then have ne: "?ch \<noteq> []" using st by (auto simp: spansOrdered_def)
  from sp ne have hl: "StartLine (AST r) = StartLine (hd ?ch)" "endLine (AST r) = endLine (last ?ch)"
    and so: "sorted (map StartLine ?ch)" "sorted (map endLine ?ch)"
    and each: "\<forall>c\<in>set ?ch. StartLine c \<le> endLine c"
    by (auto simp: spansOrdered_def)
  have mn: "Min (StartLine ` set ?ch) = StartLine (hd ?ch)"
    using sorted_hd_Min_aux[OF so(1)] ne by (simp add: hd_map)
  have mx: "Max (endLine ` set ?ch) = endLine (last ?ch)"
    using sorted_last_Max_aux[OF so(2)] ne by (simp add: last_map)
  have "hd ?ch \<in> set ?ch" "last ?ch \<in> set ?ch" using ne by simp_all
  then have "StartLine (hd ?ch) \<le> endLine (hd ?ch)" "endLine (hd ?ch) \<le> Max (endLine ` set ?ch)"
    using each by auto
  then have le: "StartLine (AST r) \<le> endLine (AST r)" using hl mx by simp
  have "(\<forall>c\<in>set ?ch. linesOrdered c) \<and> Next (AST r) = Next rootInit"
    using assms(1) _ pl by (rule parseLoop_children_ordered) (simp add: rootInit_def)
  then have "linesOrdered (AST r)"
    using le by (subst linesOrdered_alt) (simp add: rootInit_def)
  with ne hl mn mx show ?thesis by simp
qed

text \<open>
  C8. In every tree that \<open>Parse\<close> returns, every node has its start line at or before
  its end line (for the nodes below the top-level instructions, given that the
  argument parsers return such nodes), the root has a child, the root's start line is
  the least start line of its children and its end line is their greatest end line.
\<close>

theorem Parse_line_spans:
  assumes "parsersOrdered env" "Parse env rwc = (Some r, e)"
  shows "linesOrdered (AST r) \<and> Children (AST r) \<noteq> [] \<and>
     StartLine (AST r) = Min (StartLine ` set (Children (AST r))) \<and>
     endLine (AST r) = Max (endLine ` set (Children (AST r)))"
proof -
  obtain scans serr where "scanLines MaxScanTokenSize rwc = (scans, serr)"
    by (cases "scanLines MaxScanTokenSize rwc") auto
  with assms(2) have "ParseLines env scans serr = (Some r, e)" by (simp add: Parse_def)
  with assms(1) show ?thesis by (rule ParseLines_spans)
qed

lemma parsersOrdered_example: "parsersOrdered exampleEnv"
  by (simp add: parsersOrdered_def exampleEnv_def)

theorem Parse_line_spans_witness:
  "parsersOrdered exampleEnv \<and>
   (\<exists>r. Parse exampleEnv (''FROM a'' @ [newline] @ ''RUN b '' @ [backslash, newline] @ ''  c'' @ [newline])
           = (Some r, None) \<and>
        linesOrdered (AST r) \<and> Children (AST r) \<noteq> [] \<and>
        StartLine (AST r) = Min (StartLine ` set (Children (AST r))) \<and>
        endLine (AST r) = Max (endLine ` set (Children (AST r))) \<and>
        StartLine (AST r) = 1 \<and> endLine (AST r) = 3 \<and>
        map (\<lambda>c. (StartLine c, endLine c)) (Children (AST r)) = [(1, 1), (2, 3)])"
proof -
  let ?r = "\<lparr>AST = Node [] None
                      [Node ''from'' None [] Map.empty ''FROM a'' [] 1 1,
                       Node ''run'' None [] Map.empty ''RUN b   c'' [] 2 3]
                    Map.empty [] [] 1 3,
              EscapeToken = backslash, Warnings = []\<rparr>"
  have s: "scanLines MaxScanTokenSize
             (''FROM a'' @ [newline] @ ''RUN b '' @ [backslash, newline] @ ''  c'' @ [newline])
           = ([Some ''FROM a'', Some (''RUN b '' @ [backslash]), Some ''  c''], None)"
    by (simp add: scanLines.simps MaxScanTokenSize_def newline_def dropCR_def backslash_def)
  have h: "Parse exampleEnv (''FROM a'' @ [newline] @ ''RUN b '' @ [backslash, newline] @ ''  c'' @ [newline])
           = (Some ?r, None)"
    unfolding Parse_def s by (simp add: parse_defs)
  note t = Parse_line_spans[OF parsersOrdered_example h]
  note t1 = t[THEN conjunct1] and t2 = t[THEN conjunct2, THEN conjunct1]
    and t3 = t[THEN conjunct2, THEN conjunct2, THEN conjunct1]
    and t4 = t[THEN conjunct2, THEN conjunct2, THEN conjunct2]
  have e1: "StartLine (AST ?r) = 1" and e2: "endLine (AST ?r) = 3"
    and e3: "map (\<lambda>c. (StartLine c, endLine c)) (Children (AST ?r)) = [(1, 1), (2, 3)]"
    by simp_all
  show ?thesis
    by (intro conjI exI[of _ ?r]) (rule parsersOrdered_example h t1 t2 t3 t4 e1 e2 e3)+
qed

subsection \<open>Warnings\<close>

lemma continuationLines_new:
  assumes "cur = int (length pre)" "cur2 = cur + 1 + int (length consumed)"
  shows "continuationLines (pre @ tok # consumed @ rest) (lines child (cur + 1) cur2) = consumed"
proof -
  have a: "nat cur2 = length (pre @ tok # consumed)" using assms by simp
  have b: "nat (cur + 1) = length (pre @ [tok])" using assms by simp
  have "take (nat cur2) (pre @ tok # consumed @ rest) = pre @ tok # consumed"
    unfolding a by (metis append.assoc append_Cons append_take_drop_id append_eq_conv_conj)
  moreover have "drop (nat (cur + 1)) (pre @ tok # consumed) = consumed"
    unfolding b by (metis append.assoc append_Cons append_Nil append_eq_conv_conj)
  ultimately show ?thesis by (simp add: continuationLines_def)
qed

lemma statementWarnings_AddChild:
  "statementWarnings toks (AddChild root child s e) =
     statementWarnings toks root @
       (if hadEmptyContinuation toks (lines child s e)
        then [emptyContinuationWarning (Original child)] else [])"
  by (simp add: statementWarnings_def)

lemma parseLoop_warnings:
  assumes "all = pre @ scans" "cur = int (length (scannedLines pre))"
    "ws = statementWarnings (scannedLines all) root"
    "parseLoop env d cur root ws scans = Inr (d', cur', root', ws')"
  shows "ws' = statementWarnings (scannedLines all) root'"
  using assms
proof (induction d cur root ws scans arbitrary: pre rule: parseLoop_induct[where env = env])
  case (Nil d cur root ws)
  then show ?case by auto
next
  case (Stop d cur root ws toks)
  then show ?case by auto
next
  case (Cons d cur root ws tok toks)
  show ?case
  proof (cases rule: parseLoop_Cons_cases[of d cur tok env root ws toks])
    case (ErrLine b d1 e)
    with Cons.prems show ?thesis by simp
  next
    case (Skip d1)
    have "all = (pre @ [Some tok]) @ toks" "cur + 1 = int (length (scannedLines (pre @ [Some tok])))"
      using Cons.prems(1,2) by simp_all
    from Cons.IH(1)[OF Skip(1) this Cons.prems(3)] Cons.prems(4) Skip(2) show ?thesis by simp
  next
    case (ErrCont b d1 line isEnd e)
    with Cons.prems show ?thesis by simp
  next
    case (ErrNode b d1 line isEnd d2 line2 isEnd2 hasEmpty cur2 rest e)
    with Cons.prems show ?thesis by simp
  next
    case (Stmt b d1 line isEnd d2 line2 isEnd2 hasEmpty cur2 rest child)
    from continuationLoop_scans[OF Stmt(4)] obtain consumed where
      c: "toks = consumed @ rest" "cur2 = cur + 1 + int (length (scannedLines consumed))"
        "hasEmpty \<longleftrightarrow> (\<exists>t\<in>set (scannedLines consumed). emptyContinuation t)" by auto
    have all: "scannedLines all
             = scannedLines pre @ tok # scannedLines consumed @ scannedLines rest"
      using Cons.prems(1) c(1) by simp
    have "continuationLines (scannedLines all) (lines child (cur + 1) cur2)
        = scannedLines consumed"
      unfolding all using Cons.prems(2) c(2) by (rule continuationLines_new)
    then have he: "hadEmptyContinuation (scannedLines all) (lines child (cur + 1) cur2) = hasEmpty"
      using c(3) by (simp add: hadEmptyContinuation_def)
    have orig: "Original child = line2" using Stmt(5) by (rule newNodeFromLine_Original)
    have w: "(if hasEmpty then ws @ [emptyContinuationWarning line2] else ws)
           = statementWarnings (scannedLines all) (AddChild root child (cur + 1) cur2)"
      using Cons.prems(3) he orig by (simp add: statementWarnings_AddChild)
    have p: "all = (pre @ Some tok # consumed) @ rest"
      "cur2 = int (length (scannedLines (pre @ Some tok # consumed)))"
      using Cons.prems(1,2) c(1,2) by simp_all
    from Cons.IH(2)[OF Stmt(1,2,3,4,5) p w] Cons.prems(4) Stmt(6) show ?thesis by simp
  qed
qed

lemma ParseLines_warnings:
  assumes "ParseLines env scans serr = (Some r, e)"
  shows "Warnings r =
     (if statementWarnings (scannedLines scans) (AST r) = [] then []
      else statementWarnings (scannedLines scans) (AST r) @ [deprecationWarning])"
proof -
  from assms obtain d cur ws where
    pl: "parseLoop env NewDefaultDirective 0 rootInit [] scans = Inr (d, cur, AST r, ws)"
    and w: "Warnings r = (if ws = [] then [] else ws @ [deprecationWarning])"
    by (rule ParseLines_Some)
  have "ws = statementWarnings (scannedLines scans) (AST r)"
    by (rule parseLoop_warnings[OF _ _ _ pl, of scans "[]"])
       (simp_all add: statementWarnings_def rootInit_def)
  with w show ?thesis by simp
qed

text \<open>
  C9. On every input that \<open>Parse\<close> parses into a tree, the warnings are: one entry for
  each top-level statement that had an empty continuation line, in the order of the
  statements and however many such lines the statement had, followed by the
  deprecation notice if there is such an entry; otherwise there is no warning. The
  physical lines are the tokens that the scanner returned, in the order it returned them.
\<close>

theorem Parse_warnings:
  assumes "scanLines MaxScanTokenSize rwc = (scans, serr)" "Parse env rwc = (Some r, e)"
  shows "Warnings r =
     (if statementWarnings (scannedLines scans) (AST r) = [] then []
      else statementWarnings (scannedLines scans) (AST r) @ [deprecationWarning])"
  using assms ParseLines_warnings[of env scans serr r e] by (simp add: Parse_def)

theorem Parse_warnings_witness:
  "(\<exists>r. Parse exampleEnv
          (''RUN a '' @ [backslash, newline, newline] @ '' '' @ [newline] @ ''b'' @ [newline] @
           ''RUN c '' @ [backslash, newline] @ ''d'') = (Some r, None) \<and>
        statementWarnings [''RUN a '' @ [backslash], [], '' '', ''b'', ''RUN c '' @ [backslash], ''d'']
          (AST r) = [emptyContinuationWarning ''RUN a b''] \<and>
        Warnings r = [emptyContinuationWarning ''RUN a b'', deprecationWarning])"
proof -
  let ?in = "''RUN a '' @ [backslash, newline, newline] @ '' '' @ [newline] @ ''b'' @ [newline] @
           ''RUN c '' @ [backslash, newline] @ ''d''"
  let ?toks = "[''RUN a '' @ [backslash], [], '' '', ''b'', ''RUN c '' @ [backslash], ''d'']"
  let ?r = "\<lparr>AST = Node [] None
                      [Node ''run'' None [] Map.empty ''RUN a b'' [] 1 4,
                       Node ''run'' None [] Map.empty ''RUN c d'' [] 5 6]
                    Map.empty [] [] 1 6,
              EscapeToken = backslash,
              Warnings = [emptyContinuationWarning ''RUN a b'', deprecationWarning]\<rparr>"
  have s: "scanLines MaxScanTokenSize ?in = (map Some ?toks, None)"
    by (simp add: scanLines.simps MaxScanTokenSize_def newline_def dropCR_def backslash_def)
  have h: "Parse exampleEnv ?in = (Some ?r, None)"
    unfolding Parse_def s by (simp add: parse_defs)
  have w: "statementWarnings ?toks (AST ?r) = [emptyContinuationWarning ''RUN a b'']"
    by (simp add: statementWarnings_def hadEmptyContinuation_def continuationLines_def
        emptyContinuation_def parse_defs)
  from Parse_warnings[OF s h] w
  have "Warnings ?r = [emptyContinuationWarning ''RUN a b'', deprecationWarning]" by simp
  note v = this
  show ?thesis
    by (intro exI[of _ ?r] conjI) (rule h w v)+
qed

subsection \<open>A statement that is incomplete when the scanner stops\<close>

text \<open>
  C10. A statement starts at the line \<open>tok\<close>, in any state of the loop, and is still
  incomplete when the inner loop stops. Then \<open>Scan\<close> has returned false, every scan
  before it was a line of the statement, and \<open>Parse\<close> raises no error for the
  statement: the logical line accumulated so far, with each trailing escape stripped,
  is handed to the dispatcher, and the node the dispatcher returns becomes a child
  whose end line is the number of the last physical line read. The only error at this
  point is one of the dispatcher. The outer loop then asks the scanner again; when the
  input is exhausted nothing is left, and the loop ends in the state with that child.
\<close>

theorem unterminated_statement_dispatched:
  assumes "processLine d (firstToken cur tok) True = (b, d1, None)"
    and "continuateLine b d1 = (line, False)"
    and "continuationLoop d1 line False False (cur + 1) scans
           = Inr (d2, line2, False, hasEmpty, cur2, rest)"
  shows "\<exists>toks. (scans = map Some toks \<and> rest = [] \<or> scans = map Some toks @ None # rest) \<and>
     cur2 = cur + 1 + int (length toks) \<and>
     parseLoop env d cur root ws (Some tok # scans) =
       (case newNodeFromLine env line2 d2 of
          Inl err \<Rightarrow> Inl err
        | Inr child \<Rightarrow>
            parseLoop env d2 cur2 (AddChild root child (cur + 1) cur2)
              (if hasEmpty then ws @ [emptyContinuationWarning line2] else ws) rest) \<and>
     (rest = [] \<longrightarrow>
      parseLoop env d cur root ws (Some tok # scans) =
       (case newNodeFromLine env line2 d2 of
          Inl err \<Rightarrow> Inl err
        | Inr child \<Rightarrow>
            Inr (d2, cur2, AddChild root child (cur + 1) cur2,
                 if hasEmpty then ws @ [emptyContinuationWarning line2] else ws)))"
proof -
  from continuationLoop_consumed[OF assms(3)] obtain toks where
    r: "scans = map Some toks \<and> rest = [] \<or> scans = map Some toks @ None # rest"
      "cur2 = cur + 1 + int (length toks)"
    by auto
  have p: "parseLoop env d cur root ws (Some tok # scans) =
       (case newNodeFromLine env line2 d2 of
          Inl err \<Rightarrow> Inl err
        | Inr child \<Rightarrow>
            parseLoop env d2 cur2 (AddChild root child (cur + 1) cur2)
              (if hasEmpty then ws @ [emptyContinuationWarning line2] else ws) rest)"
    using assms by (auto simp: firstToken_def split: sum.splits)
  have q: "rest = [] \<longrightarrow>
      parseLoop env d cur root ws (Some tok # scans) =
       (case newNodeFromLine env line2 d2 of
          Inl err \<Rightarrow> Inl err
        | Inr child \<Rightarrow>
            Inr (d2, cur2, AddChild root child (cur + 1) cur2,
                 if hasEmpty then ws @ [emptyContinuationWarning line2] else ws))"
    unfolding p by (auto split: sum.splits)
  from r p q show ?thesis by (intro exI[of _ toks] conjI)
qed

theorem unterminated_statement_dispatched_witness:
  "parseLoop exampleEnv NewDefaultDirective 0 rootInit []
      [Some (''RUN a '' @ [backslash]), Some (''b '' @ [backslash])]
     = Inr (NewDefaultDirective\<lparr>processingComplete := True\<rparr>, 2,
            Node [] None [Node ''run'' None [] Map.empty ''RUN a b '' [] 1 2] Map.empty [] [] 1 2,
            []) \<and>
   ParseLines exampleEnv [Some (''RUN a '' @ [backslash]), Some (''b '' @ [backslash])] None
     = (Some \<lparr>AST = Node [] None [Node ''run'' None [] Map.empty ''RUN a b '' [] 1 2]
                      Map.empty [] [] 1 2,
              EscapeToken = backslash, Warnings = []\<rparr>, None)"
proof -
  let ?d1 = "NewDefaultDirective\<lparr>processingComplete := True\<rparr>"
  have a: "processLine NewDefaultDirective (firstToken 0 (''RUN a '' @ [backslash])) True
             = (''RUN a '' @ [backslash], ?d1, None)"
    by (simp add: firstToken_def parse_defs)
  have b: "continuateLine (''RUN a '' @ [backslash]) ?d1 = (''RUN a '', False)"
    by (simp add: parse_defs)
  have c: "continuationLoop ?d1 ''RUN a '' False False (0 + 1) [Some (''b '' @ [backslash])]
             = Inr (?d1, ''RUN a b '', False, False, 2, [])"
    by (simp add: parse_defs)
  have n: "newNodeFromLine exampleEnv ''RUN a b '' ?d1
             = Inr (Node ''run'' None [] Map.empty ''RUN a b '' [] 0 0)"
    by (simp add: parse_defs)
  from unterminated_statement_dispatched[OF a b c, of exampleEnv rootInit "[]"] n
  have p: "parseLoop exampleEnv NewDefaultDirective 0 rootInit []
      [Some (''RUN a '' @ [backslash]), Some (''b '' @ [backslash])]
     = Inr (?d1, 2,
            Node [] None [Node ''run'' None [] Map.empty ''RUN a b '' [] 1 2] Map.empty [] [] 1 2,
            [])"
    by (auto simp del: parseLoop.simps(3) simp: rootInit_def)
  then have "ParseLines exampleEnv [Some (''RUN a '' @ [backslash]), Some (''b '' @ [backslash])] None
     = (Some \<lparr>AST = Node [] None [Node ''run'' None [] Map.empty ''RUN a b '' [] 1 2]
                      Map.empty [] [] 1 2,
              EscapeToken = backslash, Warnings = []\<rparr>, None)"
    by (simp add: ParseLines_def handleScannerError_def NewDefaultDirective_def setEscapeToken_def
        DefaultEscapeToken_def)
  with p show ?thesis by simp
qed

subsection \<open>The closed directive window\<close>

lemma trimWhitespace_bom: "take (length utf8bom) tok = utf8bom \<Longrightarrow> trimWhitespace tok = tok"
proof -
  assume a: "take (length utf8bom) tok = utf8bom"
  then obtain rest where "tok = CHR 0xEF # CHR 0xBB # CHR 0xBF # rest"
    by (cases tok; cases "tl tok"; cases "tl (tl tok)") (auto simp: utf8bom_def)
  then show ?thesis by (simp add: isSpaceByte_def isSpace2_def isSpace3_def)
qed

lemma directiveLine_hash:
  assumes "directiveLine tok = Some s"
  shows "tokenComment (trimWhitespace tok)"
  using assms unfolding directiveLine_def by (rule directive_is_comment)

lemma directiveLine_no_bom:
  assumes "directiveLine tok = Some s"
  shows "TrimPrefix tok utf8bom = tok"
proof (rule ccontr)
  assume "TrimPrefix tok utf8bom \<noteq> tok"
  then have b: "take (length utf8bom) tok = utf8bom"
    by (simp add: TrimPrefix_def split: if_splits)
  then have "trimWhitespace tok = tok" by (rule trimWhitespace_bom)
  moreover have "hd tok = CHR 0xEF" using b by (cases tok) (auto simp: utf8bom_def)
  ultimately show False using directiveLine_hash[OF assms]
    by (cases tok) (auto simp: tokenComment_def)
qed

lemma isComment_hash: "isComment ''#''"
  by (simp add: isComment_def tokenComment_def isSpaceByte_def)

lemma processLine_hash: "processingComplete d \<Longrightarrow> processLine d (firstToken cur ''#'') True = ([], d, None)"
  by (simp add: processLine_complete firstToken_def TrimPrefix_def utf8bom_def trimComments_def
      tokenComment_def isSpaceByte_def)

lemma processLine_asComment_first:
  assumes "processingComplete d"
  shows "processLine d (firstToken cur (asComment tok)) True = processLine d (firstToken cur tok) True"
proof (cases "directiveLine tok")
  case None
  then show ?thesis by (simp add: asComment_def)
next
  case (Some s)
  have ft: "firstToken cur tok = tok"
    using directiveLine_no_bom[OF Some] by (simp add: firstToken_def)
  have "trimComments (trimWhitespace tok) = []"
    using directiveLine_hash[OF Some] by (simp add: trimComments_def)
  then have rhs: "processLine d (firstToken cur tok) True = ([], d, None)"
    using assms ft by (simp add: processLine_complete)
  have lhs: "processLine d (firstToken cur (asComment tok)) True = ([], d, None)"
    using Some processLine_hash[OF assms, of cur] by (simp add: asComment_def)
  show ?thesis by (simp only: lhs rhs)
qed

lemma isComment_asComment: "isComment (asComment tok) = isComment tok"
proof (cases "directiveLine tok")
  case None
  then show ?thesis by (simp add: asComment_def)
next
  case (Some s)
  have "isComment tok" using directiveLine_hash[OF Some] by (simp add: isComment_def)
  then show ?thesis using Some by (simp add: asComment_def isComment_hash)
qed

lemma asComment_text: "\<not> isComment tok \<Longrightarrow> asComment tok = tok"
  using directiveLine_hash[of tok] by (cases "directiveLine tok") (auto simp: asComment_def isComment_def)

lemma continuationLoop_closed:
  assumes "processingComplete d"
  shows "\<exists>l e' h' c rest.
     continuationLoop d line e h cur scans = Inr (d, l, e', h', c, rest) \<and>
     continuationLoop d line e h cur (map (map_option asComment) scans)
       = Inr (d, l, e', h', c, map (map_option asComment) rest)"
proof (induction scans arbitrary: line e h cur)
  case Nil
  then show ?case by simp
next
  case (Cons a scans)
  show ?case
  proof (cases e)
    case True
    then show ?thesis by (cases a) auto
  next
    case False
    show ?thesis
    proof (cases a)
      case None
      with False show ?thesis by auto
    next
      case (Some tok)
      have p1: "processLine d tok False = (trimComments tok, d, None)"
        using assms by (simp add: processLine_complete)
      have p2: "processLine d (asComment tok) False = (trimComments (asComment tok), d, None)"
        using assms by (simp add: processLine_complete)
      show ?thesis
      proof (cases "isComment tok")
        case True
        with False Some p1 p2 Cons.IH[of line e h "cur + 1"] show ?thesis
          by (simp add: isComment_asComment)
      next
        case nc: False
        then have same: "asComment tok = tok" by (rule asComment_text)
        obtain l2 e2 where cl: "continuateLine (line @ trimComments tok) d = (l2, e2)"
          by (cases "continuateLine (line @ trimComments tok) d") auto
        show ?thesis
        proof (cases "isEmptyContinuationLine (trimComments tok)")
          case True
          with False Some p1 nc same Cons.IH[of line e True "cur + 1"] show ?thesis by simp
        next
          case ne: False
          with False Some p1 nc same cl Cons.IH[of l2 e2 h "cur + 1"] show ?thesis by simp
        qed
      qed
    qed
  qed
qed

lemma parseLoop_closed:
  assumes "processingComplete d"
  shows "parseLoop env d cur root ws (map (map_option asComment) scans) = parseLoop env d cur root ws scans \<and>
     (\<forall>d' cur' root' ws'. parseLoop env d cur root ws scans = Inr (d', cur', root', ws') \<longrightarrow> d' = d) \<and>
     (\<forall>err. parseLoop env d cur root ws scans = Inl err \<longrightarrow> (\<exists>m. err = ArgumentError m))"
  using assms
proof (induction d cur root ws scans rule: parseLoop_induct[where env = env])
  case (Nil d cur root ws)
  then show ?case by simp
next
  case (Stop d cur root ws scans)
  then show ?case by simp
next
  case (Cons d cur root ws tok scans)
  note cl = Cons.prems
  have pl: "processLine d (firstToken cur tok) True
              = (trimComments (trimWhitespace (firstToken cur tok)), d, None)"
    using cl by (simp add: processLine_complete)
  have pa: "processLine d (firstToken cur (asComment tok)) True
              = (trimComments (trimWhitespace (firstToken cur tok)), d, None)"
    using processLine_asComment_first[OF cl] pl by simp
  let ?b = "trimComments (trimWhitespace (firstToken cur tok))"
  obtain line isEnd where c: "continuateLine ?b d = (line, isEnd)"
    by (cases "continuateLine ?b d") auto
  show ?case
  proof (cases "isEnd \<and> line = []")
    case True
    then have "?b = []" using c
      by (auto simp: continuateLine_def lineEscapeReplace_def split: if_splits)
    with pl have p0: "processLine d (firstToken cur tok) True = ([], d, None)" by simp
    have "parseLoop env d cur root ws (Some tok # scans) = parseLoop env d (cur + 1) root ws scans"
      using pl c True by (simp add: firstToken_def)
    moreover have "parseLoop env d cur root ws (map (map_option asComment) (Some tok # scans))
                 = parseLoop env d (cur + 1) root ws (map (map_option asComment) scans)"
      using pa c True by (simp add: firstToken_def)
    ultimately show ?thesis using Cons.IH(1)[OF p0 cl] by simp
  next
    case False
    from continuationLoop_closed[OF cl, of line isEnd False "cur + 1" scans]
    obtain line2 isEnd2 hasEmpty cur2 rest where
      k1: "continuationLoop d line isEnd False (cur + 1) scans
             = Inr (d, line2, isEnd2, hasEmpty, cur2, rest)"
      and k2: "continuationLoop d line isEnd False (cur + 1) (map (map_option asComment) scans)
             = Inr (d, line2, isEnd2, hasEmpty, cur2, map (map_option asComment) rest)"
      by blast
    show ?thesis
    proof (cases "newNodeFromLine env line2 d")
      case (Inl e)
      have "parseLoop env d cur root ws (Some tok # scans) = Inl e"
        using pl c False k1 Inl by (auto simp: firstToken_def)
      moreover have "parseLoop env d cur root ws (map (map_option asComment) (Some tok # scans)) = Inl e"
        using pa c False k2 Inl by (auto simp: firstToken_def)
      ultimately show ?thesis using newNodeFromLine_error[OF Inl] by auto
    next
      case (Inr child)
      let ?root = "AddChild root child (cur + 1) cur2"
      let ?ws = "if hasEmpty then ws @ [emptyContinuationWarning line2] else ws"
      have "parseLoop env d cur root ws (Some tok # scans) = parseLoop env d cur2 ?root ?ws rest"
        using pl c False k1 Inr by (auto simp: firstToken_def)
      moreover have "parseLoop env d cur root ws (map (map_option asComment) (Some tok # scans))
                   = parseLoop env d cur2 ?root ?ws (map (map_option asComment) rest)"
        using pa c False k2 Inr by (auto simp: firstToken_def)
      ultimately show ?thesis using Cons.IH(2)[OF pl c False k1 Inr cl] by simp
    qed
  qed
qed

lemma parseLoop_closing:
  assumes "\<not> processingComplete d" "directiveLine (firstToken cur tok) = None"
  shows "parseLoop env d cur root ws (Some tok # scans)
       = parseLoop env (d\<lparr>processingComplete := True\<rparr>) cur root ws (Some tok # scans)"
proof -
  let ?d = "d\<lparr>processingComplete := True\<rparr>"
  have "processLine d (firstToken cur tok) True
          = (trimComments (trimWhitespace (firstToken cur tok)), ?d, None)"
    using assms by (rule processLine_no_directive)
  moreover have "processLine ?d (firstToken cur tok) True
          = (trimComments (trimWhitespace (firstToken cur tok)), ?d, None)"
    by (simp add: processLine_complete)
  ultimately show ?thesis by (simp add: firstToken_def)
qed

lemma asComment_closing: "directiveLine (firstToken cur l) = None \<Longrightarrow> asComment l = l"
proof (cases "directiveLine l")
  case None
  then show ?thesis by (simp add: asComment_def)
next
  case (Some s)
  assume a: "directiveLine (firstToken cur l) = None"
  have "firstToken cur l = l" using directiveLine_no_bom[OF Some] by (simp add: firstToken_def)
  with a Some show ?thesis by simp
qed

lemma window_state:
  assumes "window = [] \<and> c = DefaultEscapeToken \<or>
     (\<exists>l0. window = [l0] \<and> directiveLine (TrimPrefix l0 utf8bom) = Some [c] \<and>
           (c = backtick \<or> c = backslash))"
  shows "\<exists>dW. \<not> processingComplete dW \<and> escapeToken dW = c \<and>
     (\<forall>tl. parseLoop env NewDefaultDirective 0 rootInit [] (map Some window @ tl)
           = parseLoop env dW (int (length window)) rootInit [] tl)"
proof (cases "window = []")
  case True
  with assms have a: "window = []" "c = DefaultEscapeToken" by auto
  show ?thesis
    by (rule exI[of _ NewDefaultDirective])
       (simp add: a default_open NewDefaultDirective_def setEscapeToken_def
          DefaultEscapeToken_def)
next
  case False
  with assms obtain l0 where a: "window = [l0]"
    "directiveLine (TrimPrefix l0 utf8bom) = Some [c]" "c = backtick \<or> c = backslash"
    by auto
  let ?d0 = "NewDefaultDirective"
  let ?d1 = "?d0\<lparr>escapeSeen := True, escapeToken := c, lineEscapeRegex := c\<rparr>"
  have p1: "processLine ?d0 (TrimPrefix l0 utf8bom) True = ([], ?d1, None)"
    using processLine_directive[OF default_open(1) a(2)] default_open(2)
      setEscapeToken_valid[OF a(3)] by simp
  have "\<not> processingComplete ?d1" using default_open(1) by simp
  moreover have "escapeToken ?d1 = c" by simp
  moreover have "\<forall>tl. parseLoop env ?d0 0 rootInit [] (map Some window @ tl)
           = parseLoop env ?d1 (int (length window)) rootInit [] tl"
    using p1 a(1) by (simp add: continuateLine_Nil)
  ultimately show ?thesis by blast
qed

text \<open>
  C2 (as amended). Once a physical line that starts a statement does not match the
  escape-directive pattern, directive scanning is closed for good: every later line
  that matches the pattern is treated as an ordinary comment line (replacing it by
  \<open>#\<close> changes nothing), no directive error is raised, and the escape token of the
  result is the one in force when the window closed: the default backslash when no
  directive preceded, the character of the directive when one valid directive did.
  \<open>window\<close> holds the lines before the closing line \<open>l\<close>, \<open>rest\<close> what the scanner
  returns after it; \<open>ParseLines\<close> is \<open>Parse\<close> on what the scanner returns.
\<close>

theorem closed_directive_window:
  assumes "window = [] \<and> c = DefaultEscapeToken \<or>
     (\<exists>l0. window = [l0] \<and> directiveLine (TrimPrefix l0 utf8bom) = Some [c] \<and>
           (c = backtick \<or> c = backslash))"
    and "directiveLine (firstToken (int (length window)) l) = None"
  shows "ParseLines env (map Some window @ Some l # map (map_option asComment) rest) serr
           = ParseLines env (map Some window @ Some l # rest) serr \<and>
     (\<forall>r e. ParseLines env (map Some window @ Some l # rest) serr = (Some r, e) \<longrightarrow> EscapeToken r = c) \<and>
     snd (ParseLines env (map Some window @ Some l # rest) serr) \<noteq> Some InvalidEscape \<and>
     snd (ParseLines env (map Some window @ Some l # rest) serr) \<noteq> Some DuplicateEscape"
proof -
  from window_state[OF assms(1), of env]
  obtain dW where dW: "\<not> processingComplete dW" "escapeToken dW = c"
    and run: "\<And>tl. parseLoop env NewDefaultDirective 0 rootInit [] (map Some window @ tl)
           = parseLoop env dW (int (length window)) rootInit [] tl"
    by blast
  let ?cur = "int (length window)"
  let ?dC = "dW\<lparr>processingComplete := True\<rparr>"
  have dC: "processingComplete ?dC" "escapeToken ?dC = c" using dW(2) by simp_all
  have r1: "parseLoop env NewDefaultDirective 0 rootInit [] (map Some window @ Some l # rest)
          = parseLoop env ?dC ?cur rootInit [] (Some l # rest)"
    using run[of "Some l # rest"] parseLoop_closing[OF dW(1) assms(2)] by simp
  have "parseLoop env NewDefaultDirective 0 rootInit [] (map Some window @ Some l # map (map_option asComment) rest)
          = parseLoop env ?dC ?cur rootInit [] (Some l # map (map_option asComment) rest)"
    using run[of "Some l # map (map_option asComment) rest"] parseLoop_closing[OF dW(1) assms(2)] by simp
  also have "\<dots> = parseLoop env ?dC ?cur rootInit [] (map (map_option asComment) (Some l # rest))"
    using asComment_closing[OF assms(2)] by simp
  also have "\<dots> = parseLoop env ?dC ?cur rootInit [] (Some l # rest)"
    using parseLoop_closed[OF dC(1), of env ?cur rootInit "[]" "Some l # rest"] by blast
  finally have r2: "parseLoop env NewDefaultDirective 0 rootInit [] (map Some window @ Some l # map (map_option asComment) rest)
          = parseLoop env NewDefaultDirective 0 rootInit [] (map Some window @ Some l # rest)"
    using r1 by simp
  have same: "ParseLines env (map Some window @ Some l # map (map_option asComment) rest) serr
           = ParseLines env (map Some window @ Some l # rest) serr"
    by (simp add: ParseLines_def r2)
  have closed: "\<forall>d' cur' root' ws'.
      parseLoop env ?dC ?cur rootInit [] (Some l # rest) = Inr (d', cur', root', ws') \<longrightarrow> d' = ?dC"
    and errs: "\<forall>err. parseLoop env ?dC ?cur rootInit [] (Some l # rest) = Inl err
                 \<longrightarrow> (\<exists>m. err = ArgumentError m)"
    using parseLoop_closed[OF dC(1), of env ?cur rootInit "[]" "Some l # rest"] by blast+
  have tok: "\<forall>r e. ParseLines env (map Some window @ Some l # rest) serr = (Some r, e) \<longrightarrow> EscapeToken r = c"
  proof (intro allI impI)
    fix r e
    assume "ParseLines env (map Some window @ Some l # rest) serr = (Some r, e)"
    then obtain d cur ws where
      "parseLoop env NewDefaultDirective 0 rootInit [] (map Some window @ Some l # rest) = Inr (d, cur, AST r, ws)"
      "EscapeToken r = escapeToken d"
      by (rule ParseLines_Some)
    with r1 have "parseLoop env ?dC ?cur rootInit [] (Some l # rest) = Inr (d, cur, AST r, ws)"
      "EscapeToken r = escapeToken d"
      by (simp_all only:)
    with closed[rule_format, of d cur "AST r" ws] dC(2) show "EscapeToken r = c" by simp
  qed
  have noerr: "snd (ParseLines env (map Some window @ Some l # rest) serr) \<noteq> Some InvalidEscape \<and>
     snd (ParseLines env (map Some window @ Some l # rest) serr) \<noteq> Some DuplicateEscape"
  proof (cases "parseLoop env ?dC ?cur rootInit [] (Some l # rest)")
    case (Inl err)
    with errs obtain m where "err = ArgumentError m" by blast
    with Inl r1 show ?thesis by (simp add: ParseLines_def)
  next
    case (Inr st)
    obtain d cur root ws where "st = (d, cur, root, ws)" by (cases st) auto
    with Inr r1 show ?thesis
      by (auto simp: ParseLines_def Let_def handleScannerError_def
          split: option.splits scanError.splits)
  qed
  from same tok noerr show ?thesis by blast
qed

theorem closed_directive_window_witness:
  "directiveLine (firstToken 0 ''# note'') = None \<and>
   map (map_option asComment) [Some ''FROM a'', Some (''# Escape = '' @ [backtick]), Some ''RUN b'']
     = [Some ''FROM a'', Some ''#'', Some ''RUN b''] \<and>
   ParseLines exampleEnv [Some ''# note'', Some ''FROM a'', Some ''#'', Some ''RUN b''] None
     = ParseLines exampleEnv
         [Some ''# note'', Some ''FROM a'', Some (''# Escape = '' @ [backtick]), Some ''RUN b''] None \<and>
   ParseLines exampleEnv
       [Some ''# note'', Some ''FROM a'', Some (''# Escape = '' @ [backtick]), Some ''RUN b''] None
     = (Some \<lparr>AST = Node [] None
                      [Node ''from'' None [] Map.empty ''FROM a'' [] 2 2,
                       Node ''run'' None [] Map.empty ''RUN b'' [] 4 4]
                    Map.empty [] [] 2 4,
              EscapeToken = backslash, Warnings = []\<rparr>, None)"
proof -
  let ?rest = "[Some ''FROM a'', Some (''# Escape = '' @ [backtick]), Some ''RUN b'']"
  have c: "directiveLine (firstToken (int (length ([] :: string list))) ''# note'') = None"
    by (simp add: directiveLine_def firstToken_def parse_defs)
  have m: "map (map_option asComment) ?rest = [Some ''FROM a'', Some ''#'', Some ''RUN b'']"
    by (simp add: asComment_def directiveLine_def parse_defs)
  have w: "[] = ([] :: string list) \<and> backslash = DefaultEscapeToken \<or>
     (\<exists>l0. ([] :: string list) = [l0] \<and> directiveLine (TrimPrefix l0 utf8bom) = Some [backslash] \<and>
           (backslash = backtick \<or> backslash = backslash))"
    by (simp add: DefaultEscapeToken_def)
  have p: "ParseLines exampleEnv (Some ''# note'' # ?rest) None
     = (Some \<lparr>AST = Node [] None
                      [Node ''from'' None [] Map.empty ''FROM a'' [] 2 2,
                       Node ''run'' None [] Map.empty ''RUN b'' [] 4 4]
                    Map.empty [] [] 2 4,
              EscapeToken = backslash, Warnings = []\<rparr>, None)"
    by (simp add: parse_defs)
  from closed_directive_window[OF w c, of exampleEnv ?rest None]
  have "ParseLines exampleEnv (Some ''# note'' # map (map_option asComment) ?rest) None
     = ParseLines exampleEnv (Some ''# note'' # ?rest) None"
    by simp
  with c m p show ?thesis by simp
qed

text \<open>
  A directive naming backtick, an instruction, then a line matching the pattern: the
  later line is a comment and the parse succeeds, but the escape token is backtick, not
  the default backslash.
\<close>

theorem later_directive_counterexample:
  "directiveLine ''FROM a'' = None \<and>
   ParseLines exampleEnv
       [Some (''# escape='' @ [backtick]), Some ''FROM a'', Some (''# escape='' @ [backslash])] None
     = (Some \<lparr>AST = Node [] None [Node ''from'' None [] Map.empty ''FROM a'' [] 2 2]
                    Map.empty [] [] 2 2,
              EscapeToken = backtick, Warnings = []\<rparr>, None) \<and>
   backtick \<noteq> DefaultEscapeToken"
  by (simp add: directiveLine_def parse_defs)

subsection \<open>An oversized line\<close>







lemma ParseLines_outcome:
  "(\<exists>err. ParseLines env scans None = (None, Some err)) \<or>
   (\<exists>r. ParseLines env scans None = (Some r, None))"
  by (auto simp: ParseLines_def Let_def handleScannerError_def split: sum.splits)










end
